theory Spec2Isabelle
  imports Complex_Main
begin

text \<open>
  A model of the replay-buffer subsystem of the reinforcement-learning toolkit and of the
  training glue around it: the vector replay buffers of \<^verbatim>\<open>vecbuf.py\<close>, the annealing
  schedule of the Atari Rainbow example, the pickling wrapper of the environment utilities
  and the \<^verbatim>\<open>learn\<close> method of the PPO penalty agent, together with the single buffer,
  the sum tree and the buffer manager that they rest on.
\<close>

section \<open>Errors\<close>

text \<open>
  Every exception that the modelled code can raise is a value.
\<close>

datatype error =
    AssertionError
  | ZeroDivisionError
  | OverflowError
  | ValueError
  | AttributeError string
  | ConfigurationError
  | IndexError

section \<open>Floats\<close>

text \<open>
  The floats that the sources compute with, the quotient of \<^verbatim>\<open>vecbuf.py\<close> and the two
  schedules of \<^verbatim>\<open>atari_rainbow.py\<close>, are IEEE 754 binary64 numbers. A finite double is
  a real of the form \<open>m * 2 ^ (e - 52)\<close> with \<open>\<bar>m\<bar> < 2 ^ 53\<close> and an exponent \<open>e\<close> between
  \<open>- 1022\<close> and \<open>1023\<close>. The exponent of a real is found by halving or doubling, and is
  clamped to that range, so that the spacing of the subnormal numbers is that of the smallest
  normal ones. The components that are modelled from the spec (the single buffer, the sum
  tree, the options of the sub-buffers) hold reals: their arithmetic is not among the sources.
\<close>

function expo_up :: "real \<Rightarrow> int \<Rightarrow> int" where
  "expo_up x n = (if x < 2 \<or> 1023 \<le> n then n else expo_up (x / 2) (n + 1))"
  by pat_completeness auto
termination
  by (relation "measure (\<lambda>(x, n). nat (1023 - n))") auto

function expo_down :: "real \<Rightarrow> int \<Rightarrow> int" where
  "expo_down x n = (if 1 \<le> x \<or> n \<le> - 1022 then n else expo_down (2 * x) (n - 1))"
  by pat_completeness auto
termination
  by (relation "measure (\<lambda>(x, n). nat (n + 1022))") auto

declare expo_up.simps [simp del] expo_down.simps [simp del]

definition exponent :: "real \<Rightarrow> int" where
  "exponent x = (if 1 \<le> \<bar>x\<bar> then expo_up \<bar>x\<bar> 0 else expo_down \<bar>x\<bar> 0)"

text \<open>Rounding to the nearest integer, a tie going to the even one.\<close>

definition round_even :: "real \<Rightarrow> int" where
  "round_even y =
     (let f = \<lfloor>y\<rfloor>
      in if y - of_int f < 1 / 2 then f
         else if 1 / 2 < y - of_int f then f + 1
         else if even f then f else f + 1)"

text \<open>
  The default rounding of IEEE arithmetic: the multiple of the spacing at \<open>x\<close> that is
  nearest to \<open>x\<close>. A result of magnitude \<open>2 ^ 1024\<close> or more stands for an overflow.
\<close>

definition round_double :: "real \<Rightarrow> real" where
  "round_double x =
     (let q = 2 powi (exponent x - 52) in of_int (round_even (x / q)) * q)"

definition overflows :: "real \<Rightarrow> bool" where
  "overflows d = (2 ^ 1024 \<le> \<bar>d\<bar>)"

text \<open>
  A Python float is a finite double, an infinity or a NaN. The two zeros are one value
  here: they compare equal in Python, and the modelled code has no operation that tells them
  apart.
\<close>

datatype pyfloat = Finite real | PosInf | NegInf | NaN

text \<open>
  The result of an arithmetic operation whose exact value is \<open>r\<close>: the rounded value, or
  an infinity on overflow. It is also the float that \<^verbatim>\<open>float(s)\<close> and a literal give
  for the decimal \<open>r\<close>.
\<close>

definition float_of_real :: "real \<Rightarrow> pyfloat" where
  "float_of_real r =
     (let d = round_double r
      in if overflows d then (if 0 < d then PosInf else NegInf) else Finite d)"

definition is_double :: "pyfloat \<Rightarrow> bool" where
  "is_double x = (case x of Finite r \<Rightarrow> float_of_real r = Finite r | _ \<Rightarrow> False)"

text \<open>
  The conversion of a Python int to a float, as in \<^verbatim>\<open>env_step / 1e6\<close>: correctly rounded,
  and an \<^verbatim>\<open>OverflowError\<close> for an int too large to convert.
\<close>

definition float_of_int :: "int \<Rightarrow> error + pyfloat" where
  "float_of_int n =
     (let d = round_double (real_of_int n)
      in if overflows d then Inl OverflowError else Inr (Finite d))"

text \<open>
  The true division \<^verbatim>\<open>a / b\<close> of two Python ints: the correctly rounded quotient, a
  \<^verbatim>\<open>ZeroDivisionError\<close> for a zero divisor and an \<^verbatim>\<open>OverflowError\<close> for a quotient
  too large for a float.
\<close>

definition int_truediv :: "int \<Rightarrow> int \<Rightarrow> error + pyfloat" where
  "int_truediv a b =
     (if b = 0 then Inl ZeroDivisionError
      else let d = round_double (real_of_int a / real_of_int b)
           in if overflows d then Inl OverflowError else Inr (Finite d))"

text \<open>Subtraction, multiplication and division of floats; none of the first two raises.\<close>

fun float_sub :: "pyfloat \<Rightarrow> pyfloat \<Rightarrow> pyfloat" where
  "float_sub (Finite a) (Finite b) = float_of_real (a - b)"
| "float_sub NaN y = NaN"
| "float_sub x NaN = NaN"
| "float_sub PosInf PosInf = NaN"
| "float_sub NegInf NegInf = NaN"
| "float_sub PosInf y = PosInf"
| "float_sub NegInf y = NegInf"
| "float_sub (Finite a) PosInf = NegInf"
| "float_sub (Finite a) NegInf = PosInf"

fun float_mul :: "pyfloat \<Rightarrow> pyfloat \<Rightarrow> pyfloat" where
  "float_mul (Finite a) (Finite b) = float_of_real (a * b)"
| "float_mul NaN y = NaN"
| "float_mul x NaN = NaN"
| "float_mul (Finite a) PosInf = (if a = 0 then NaN else if 0 < a then PosInf else NegInf)"
| "float_mul (Finite a) NegInf = (if a = 0 then NaN else if 0 < a then NegInf else PosInf)"
| "float_mul PosInf (Finite b) = (if b = 0 then NaN else if 0 < b then PosInf else NegInf)"
| "float_mul NegInf (Finite b) = (if b = 0 then NaN else if 0 < b then NegInf else PosInf)"
| "float_mul PosInf PosInf = PosInf"
| "float_mul PosInf NegInf = NegInf"
| "float_mul NegInf PosInf = NegInf"
| "float_mul NegInf NegInf = PosInf"

fun float_div :: "pyfloat \<Rightarrow> pyfloat \<Rightarrow> pyfloat" where
  "float_div (Finite a) (Finite b) = float_of_real (a / b)"
| "float_div NaN y = NaN"
| "float_div x NaN = NaN"
| "float_div (Finite a) y = Finite 0"
| "float_div PosInf (Finite b) = (if 0 < b then PosInf else NegInf)"
| "float_div NegInf (Finite b) = (if 0 < b then NegInf else PosInf)"
| "float_div x y = NaN"

definition float_truediv :: "pyfloat \<Rightarrow> pyfloat \<Rightarrow> error + pyfloat" where
  "float_truediv a b = (if b = Finite 0 then Inl ZeroDivisionError else Inr (float_div a b))"

text \<open>The order \<^verbatim>\<open><=\<close> of floats: a NaN compares false with everything.\<close>

fun float_le :: "pyfloat \<Rightarrow> pyfloat \<Rightarrow> bool" where
  "float_le NaN y = False"
| "float_le x NaN = False"
| "float_le NegInf y = True"
| "float_le x PosInf = True"
| "float_le (Finite a) (Finite b) = (a \<le> b)"
| "float_le x y = False"

text \<open>
  \<^verbatim>\<open>np.ceil\<close> of a float, and \<^verbatim>\<open>int\<close> of the result: \<^verbatim>\<open>int\<close> raises
  \<^verbatim>\<open>OverflowError\<close> for an infinity and \<^verbatim>\<open>ValueError\<close> for a NaN.
\<close>

fun np_ceil :: "pyfloat \<Rightarrow> pyfloat" where
  "np_ceil (Finite a) = Finite (of_int \<lceil>a\<rceil>)"
| "np_ceil x = x"

fun int_of_float :: "pyfloat \<Rightarrow> error + int" where
  "int_of_float (Finite a) = Inr (if 0 \<le> a then \<lfloor>a\<rfloor> else \<lceil>a\<rceil>)"
| "int_of_float NaN = Inl ValueError"
| "int_of_float x = Inl OverflowError"

section \<open>Single buffers\<close>

text \<open>
  Modelled from the spec: the transition record and the single-buffer engine of
  \<^verbatim>\<open>rltoolkit/data/buffer/base.py\<close>, which is not among the sources. A transition
  carries an observation (the tag of the scenarios), a reward and the two end-of-episode
  flags.
\<close>

record 'o transition =
  obs :: 'o
  rew :: real
  terminated :: bool
  truncated :: bool

text \<open>
  Modelled from the spec: a buffer of fixed capacity \<open>maxsize\<close> owns one slot per index,
  the number of valid entries, the write cursor and the running episode statistic. The
  keyword arguments it was constructed with are kept in \<open>options\<close>.
\<close>

record ('kw, 'o) ReplayBuffer =
  maxsize :: int
  options :: 'kw
  slots :: "'o transition option list"
  cur_size :: nat
  cursor :: nat
  ep_rew :: real
  ep_len :: nat

text \<open>
  Modelled from the spec: construction of a single buffer
  (\<^verbatim>\<open>ReplayBuffer(size, **kwargs)\<close>, absent from the sources). Spec section 7 names the
  rejected configurations (non-positive capacity, parameters out of range) without giving
  the ranges, so the check is the parameter \<open>valid\<close>; an accepted configuration gives an
  empty buffer of that capacity.
\<close>

definition ReplayBuffer_init ::
  "(int \<Rightarrow> 'kw \<Rightarrow> bool) \<Rightarrow> int \<Rightarrow> 'kw \<Rightarrow> error + ('kw, 'o) ReplayBuffer" where
  "ReplayBuffer_init valid n kwargs =
     (if valid n kwargs
      then Inr \<lparr>maxsize = n, options = kwargs, slots = replicate (nat n) None,
                cur_size = 0, cursor = 0, ep_rew = 0, ep_len = 0\<rparr>
      else Inl ConfigurationError)"

text \<open>The check of spec section 7 that is spelled out: a capacity must be positive.\<close>

definition positive_capacity :: "int \<Rightarrow> 'kw \<Rightarrow> bool" where
  "positive_capacity n kwargs \<longleftrightarrow> 0 < n"

text \<open>
  Modelled from the spec (section 4.1, \<^verbatim>\<open>add\<close>): the transition is written at the
  cursor, the cursor advances circularly, the size grows until the capacity is reached, and
  the episode statistic is returned and cleared when the transition ends an episode.
\<close>

definition ReplayBuffer_add ::
  "('kw, 'o) ReplayBuffer \<Rightarrow> 'o transition \<Rightarrow>
     (nat \<times> real option \<times> nat option) \<times> ('kw, 'o) ReplayBuffer" where
  "ReplayBuffer_add b x =
     (let i = cursor b;
          N = nat (maxsize b);
          r = ep_rew b + rew x;
          l = ep_len b + 1;
          finished = (terminated x \<or> truncated x)
      in ((i, if finished then Some r else None, if finished then Some l else None),
          b\<lparr>slots := (slots b)[i := Some x],
            cur_size := min (cur_size b + 1) N,
            cursor := (i + 1) mod N,
            ep_rew := (if finished then 0 else r),
            ep_len := (if finished then 0 else l)\<rparr>))"

text \<open>A sequence of \<^verbatim>\<open>add\<close> calls on one buffer, the returned statistics dropped.\<close>

fun add_all :: "('kw, 'o) ReplayBuffer \<Rightarrow> 'o transition list \<Rightarrow> ('kw, 'o) ReplayBuffer" where
  "add_all b [] = b"
| "add_all b (x # xs) = add_all (snd (ReplayBuffer_add b x)) xs"

text \<open>A transition that carries nothing but its tag.\<close>

definition tagged :: "'o \<Rightarrow> 'o transition" where
  "tagged t = \<lparr>obs = t, rew = 0, terminated = False, truncated = False\<rparr>"

section \<open>The priority index\<close>

text \<open>
  Modelled from the spec (sections 3 and 4.2; \<^verbatim>\<open>segtree.py\<close> is not among the sources):
  a complete binary tree in an array of length \<open>2 * bound\<close>, where \<open>bound\<close> is the least
  power of two that is not below the capacity. Node 1 is the root, the children of node
  \<open>i\<close> are \<open>2 * i\<close> and \<open>2 * i + 1\<close>, leaf \<open>i\<close> is node \<open>bound + i\<close>.
\<close>

record SumTree =
  capacity :: nat
  bound :: nat
  nodes :: "real list"

function tree_bound :: "nat \<Rightarrow> nat \<Rightarrow> nat" where
  "tree_bound p n = (if 0 < p \<and> p < n then tree_bound (2 * p) n else p)"
  by pat_completeness auto
termination
  by (relation "measure (\<lambda>(p, n). n - p)") auto

declare tree_bound.simps [simp del]

text \<open>
  Modelled from the spec: a tree is created once for a fixed capacity, with zero in every
  node; \<^verbatim>\<open>total()\<close> is the value of the root.
\<close>

definition SumTree_init :: "nat \<Rightarrow> SumTree" where
  "SumTree_init n =
     \<lparr>capacity = n, bound = tree_bound 1 n, nodes = replicate (2 * tree_bound 1 n) 0\<rparr>"

definition leaf :: "SumTree \<Rightarrow> nat \<Rightarrow> real" where
  "leaf t i = nodes t ! (bound t + i)"

definition SumTree_total :: "SumTree \<Rightarrow> real" where
  "SumTree_total t = nodes t ! 1"

text \<open>
  Modelled from the spec (section 4.2, the propagation of \<^verbatim>\<open>update\<close>): the walk from a
  node to the root that adds the change of a leaf to every ancestor.
\<close>

function propagate :: "real list \<Rightarrow> nat \<Rightarrow> real \<Rightarrow> real list" where
  "propagate vs j d = (if j = 0 then vs else propagate (vs[j := vs ! j + d]) (j div 2) d)"
  by pat_completeness auto
termination
  by (relation "measure (\<lambda>(vs, j, d). j)") auto

declare propagate.simps [simp del]

text \<open>
  Modelled from the spec (section 4.2, \<^verbatim>\<open>update(leaf_index, priority)\<close>): the leaf
  becomes the priority, a positive number, to the power \<open>\<alpha>\<close>, and the difference is
  propagated to the ancestors; an index outside the tree is an error. The second function
  is a sequence of updates that stops at the first error.
\<close>

definition SumTree_update :: "real \<Rightarrow> SumTree \<Rightarrow> nat \<Rightarrow> real \<Rightarrow> error + SumTree" where
  "SumTree_update \<alpha> t i priority =
     (if capacity t \<le> i then Inl IndexError
      else let j = bound t + i;
               v = priority powr \<alpha>;
               d = v - nodes t ! j
           in Inr (t\<lparr>nodes := propagate ((nodes t)[j := v]) (j div 2) d\<rparr>))"

fun update_all :: "real \<Rightarrow> SumTree \<Rightarrow> (nat \<times> real) list \<Rightarrow> error + SumTree" where
  "update_all \<alpha> t [] = Inr t"
| "update_all \<alpha> t ((i, p) # ups) =
     (case SumTree_update \<alpha> t i p of Inl e \<Rightarrow> Inl e | Inr t' \<Rightarrow> update_all \<alpha> t' ups)"

text \<open>
  Modelled from the spec (section 4.2, the descent of \<^verbatim>\<open>sample\<close>): from a node the walk
  goes left if the target is below the sum of the left child, else the left sum is
  subtracted and the walk goes right, until a leaf is reached; the result of a search from
  the root is the index of that leaf.
\<close>

function descend :: "nat \<Rightarrow> real list \<Rightarrow> nat \<Rightarrow> real \<Rightarrow> nat" where
  "descend bnd vs node target =
     (if 0 < node \<and> node < bnd
      then (if target < vs ! (2 * node)
            then descend bnd vs (2 * node) target
            else descend bnd vs (2 * node + 1) (target - vs ! (2 * node)))
      else node)"
  by pat_completeness auto
termination
  by (relation "measure (\<lambda>(bnd, vs, node, target). bnd - node)") auto

declare descend.simps [simp del]

definition SumTree_find :: "SumTree \<Rightarrow> real \<Rightarrow> nat" where
  "SumTree_find t target = descend (bound t) (nodes t) 1 target - bound t"

text \<open>
  Modelled from the spec (section 4.2, \<^verbatim>\<open>sample(batch_size)\<close>): the random draws are an
  input, one number of \<open>[0, 1)\<close> per segment, and \<open>batch_size\<close> is their number. Draw
  \<open>i\<close> is scaled into segment \<open>i\<close> of \<open>[0, total)\<close> and the tree is descended with it;
  the result pairs each index with its priority.
\<close>

definition sample_target :: "SumTree \<Rightarrow> nat \<Rightarrow> nat \<Rightarrow> real \<Rightarrow> real" where
  "sample_target t batch_size i u =
     (let segment = SumTree_total t / real batch_size in segment * real i + u * segment)"

definition SumTree_sample :: "SumTree \<Rightarrow> real list \<Rightarrow> (nat \<times> real) list" where
  "SumTree_sample t us =
     map (\<lambda>(i, u). let idx = SumTree_find t (sample_target t (length us) i u)
                    in (idx, leaf t idx))
         (enumerate 0 us)"

text \<open>The cumulative priority in front of leaf \<open>i\<close>.\<close>

definition cumulative :: "SumTree \<Rightarrow> nat \<Rightarrow> real" where
  "cumulative t i = (\<Sum>k<i. leaf t k)"

text \<open>
  Two notions for the proofs about the tree. Node \<open>i\<close> is on the path of node \<open>j\<close> if it is
  \<open>j\<close> or one of its ancestors; the invariant of a tree says that its array has the length
  of a complete tree over a power of two, that every inner node is the sum of its children
  and that the leaves beyond the capacity are zero.
\<close>

function on_path :: "nat \<Rightarrow> nat \<Rightarrow> bool" where
  "on_path i j = (if j = 0 then False else i = j \<or> on_path i (j div 2))"
  by pat_completeness auto
termination
  by (relation "measure (\<lambda>(i, j). j)") auto

declare on_path.simps [simp del]

definition sum_tree_invariant :: "SumTree \<Rightarrow> bool" where
  "sum_tree_invariant t \<longleftrightarrow>
     (\<exists>h. bound t = 2 ^ h) \<and> capacity t \<le> bound t \<and> length (nodes t) = 2 * bound t
     \<and> (\<forall>i. 0 < i \<and> i < bound t \<longrightarrow> nodes t ! i = nodes t ! (2 * i) + nodes t ! (2 * i + 1))
     \<and> (\<forall>k. capacity t \<le> k \<and> k < bound t \<longrightarrow> nodes t ! (bound t + k) = 0)"

section \<open>Prioritized and hindsight sub-buffers\<close>

text \<open>
  Modelled from the spec (sections 4.2 and 6; \<^verbatim>\<open>prio.py\<close> is not among the sources):
  the options of a prioritized buffer hold the priority exponent, the importance-sampling
  exponent and the weight normalisation flag; the buffer itself adds its exponents and its
  own sum tree to the single buffer.
\<close>

record prio_options =
  opt_alpha :: real
  opt_beta :: real
  opt_weight_norm :: bool

record ('kw, 'o) PrioritizedReplayBuffer = "('kw, 'o) ReplayBuffer" +
  alpha :: real
  beta :: real
  weight_norm :: bool
  weight :: SumTree

definition PrioritizedReplayBuffer_init ::
  "(int \<Rightarrow> 'z prio_options_scheme \<Rightarrow> bool) \<Rightarrow> int \<Rightarrow> 'z prio_options_scheme \<Rightarrow>
     error + ('z prio_options_scheme, 'o) PrioritizedReplayBuffer" where
  "PrioritizedReplayBuffer_init valid n kwargs =
     (if valid n kwargs
      then Inr \<lparr>maxsize = n, options = kwargs, slots = replicate (nat n) None,
                cur_size = 0, cursor = 0, ep_rew = 0, ep_len = 0,
                alpha = opt_alpha kwargs, beta = opt_beta kwargs,
                weight_norm = opt_weight_norm kwargs, weight = SumTree_init (nat n)\<rparr>
      else Inl ConfigurationError)"

text \<open>
  Modelled from the spec (section 4.2: the exponent \<open>\<beta>\<close> is externally mutable):
  \<^verbatim>\<open>PrioritizedReplayBuffer.set_beta\<close> stores the new exponent.
\<close>

definition set_beta :: "real \<Rightarrow> ('kw, 'o) PrioritizedReplayBuffer \<Rightarrow> ('kw, 'o) PrioritizedReplayBuffer" where
  "set_beta b buffer = buffer\<lparr>beta := b\<rparr>"

text \<open>
  Modelled from the spec (section 4.4; \<^verbatim>\<open>her.py\<close> is not among the sources): a
  hindsight buffer stores what a single buffer stores; relabelling happens on sampling and
  its configuration travels in the options.
\<close>

definition HERReplayBuffer_init ::
  "(int \<Rightarrow> 'kw \<Rightarrow> bool) \<Rightarrow> int \<Rightarrow> 'kw \<Rightarrow> error + ('kw, 'o) ReplayBuffer" where
  "HERReplayBuffer_init valid n kwargs = ReplayBuffer_init valid n kwargs"

section \<open>Buffer managers\<close>

text \<open>
  Modelled from the spec (section 3; \<^verbatim>\<open>manager.py\<close> is not among the sources): a manager
  is the ordered collection of its buffers, the prefix-offset table over their capacities
  and the size of the global index space, the sum of the capacities. The three managers
  differ in the kind of buffer they hold.
\<close>

record 'b ReplayBufferManager =
  buffers :: "'b list"
  offset :: "int list"
  total_capacity :: int

fun prefix_offsets :: "int \<Rightarrow> int list \<Rightarrow> int list" where
  "prefix_offsets acc [] = []"
| "prefix_offsets acc (n # ns) = acc # prefix_offsets (acc + n) ns"

definition ReplayBufferManager_init ::
  "('kw, 'o, 'z) ReplayBuffer_scheme list \<Rightarrow> ('kw, 'o, 'z) ReplayBuffer_scheme ReplayBufferManager" where
  "ReplayBufferManager_init buffer_list =
     \<lparr>buffers = buffer_list,
      offset = prefix_offsets 0 (map maxsize buffer_list),
      total_capacity = sum_list (map maxsize buffer_list)\<rparr>"

section \<open>Vector replay buffers (vecbuf.py)\<close>

text \<open>The list comprehension \<^verbatim>\<open>[f(i) for i in range(n)]\<close>: the first error ends it.\<close>

primrec list_comprehension :: "(nat \<Rightarrow> error + 'b) \<Rightarrow> nat list \<Rightarrow> error + 'b list" where
  "list_comprehension f [] = Inr []"
| "list_comprehension f (i # is) =
     (case f i of
        Inl e \<Rightarrow> Inl e
      | Inr b \<Rightarrow> (case list_comprehension f is of Inl e \<Rightarrow> Inl e | Inr bs \<Rightarrow> Inr (b # bs)))"

text \<open>
  The common size \<^verbatim>\<open>int(np.ceil(total_size / buffer_num))\<close> of the sub-buffers: the
  quotient is the true division of two ints, a float.
\<close>

definition sub_buffer_size :: "int \<Rightarrow> int \<Rightarrow> error + int" where
  "sub_buffer_size total_size buffer_num =
     (case int_truediv total_size buffer_num of
        Inl e \<Rightarrow> Inl e
      | Inr q \<Rightarrow> int_of_float (np_ceil q))"

text \<open>
  \<^verbatim>\<open>VectorReplayBuffer.__init__\<close>: the assertion, the common size, one buffer per index
  of \<^verbatim>\<open>range(buffer_num)\<close>, and the manager over the list. The prioritized and the
  hindsight variant differ in the class of the sub-buffers and of the manager.
\<close>

definition VectorReplayBuffer_init ::
  "(int \<Rightarrow> 'kw \<Rightarrow> bool) \<Rightarrow> int \<Rightarrow> int \<Rightarrow> 'kw \<Rightarrow>
     error + ('kw, 'o) ReplayBuffer ReplayBufferManager" where
  "VectorReplayBuffer_init valid total_size buffer_num kwargs =
     (if \<not> 0 < buffer_num then Inl AssertionError
      else case sub_buffer_size total_size buffer_num of
             Inl e \<Rightarrow> Inl e
           | Inr sz \<Rightarrow>
               (case list_comprehension (\<lambda>_. ReplayBuffer_init valid sz kwargs)
                       [0..<nat buffer_num] of
                  Inl e \<Rightarrow> Inl e
                | Inr buffer_list \<Rightarrow> Inr (ReplayBufferManager_init buffer_list)))"

definition PrioritizedVectorReplayBuffer_init ::
  "(int \<Rightarrow> 'z prio_options_scheme \<Rightarrow> bool) \<Rightarrow> int \<Rightarrow> int \<Rightarrow> 'z prio_options_scheme \<Rightarrow>
     error + ('z prio_options_scheme, 'o) PrioritizedReplayBuffer ReplayBufferManager" where
  "PrioritizedVectorReplayBuffer_init valid total_size buffer_num kwargs =
     (if \<not> 0 < buffer_num then Inl AssertionError
      else case sub_buffer_size total_size buffer_num of
             Inl e \<Rightarrow> Inl e
           | Inr sz \<Rightarrow>
               (case list_comprehension (\<lambda>_. PrioritizedReplayBuffer_init valid sz kwargs)
                       [0..<nat buffer_num] of
                  Inl e \<Rightarrow> Inl e
                | Inr buffer_list \<Rightarrow> Inr (ReplayBufferManager_init buffer_list)))"

definition HERVectorReplayBuffer_init ::
  "(int \<Rightarrow> 'kw \<Rightarrow> bool) \<Rightarrow> int \<Rightarrow> int \<Rightarrow> 'kw \<Rightarrow>
     error + ('kw, 'o) ReplayBuffer ReplayBufferManager" where
  "HERVectorReplayBuffer_init valid total_size buffer_num kwargs =
     (if \<not> 0 < buffer_num then Inl AssertionError
      else case sub_buffer_size total_size buffer_num of
             Inl e \<Rightarrow> Inl e
           | Inr sz \<Rightarrow>
               (case list_comprehension (\<lambda>_. HERReplayBuffer_init valid sz kwargs)
                       [0..<nat buffer_num] of
                  Inl e \<Rightarrow> Inl e
                | Inr buffer_list \<Rightarrow> Inr (ReplayBufferManager_init buffer_list)))"

text \<open>
  \<^verbatim>\<open>PrioritizedVectorReplayBuffer.set_beta\<close>: the loop over \<^verbatim>\<open>self.buffers\<close> that
  calls \<^verbatim>\<open>set_beta\<close> on each buffer.
\<close>

definition vector_set_beta ::
  "real \<Rightarrow> ('kw, 'o) PrioritizedReplayBuffer ReplayBufferManager \<Rightarrow>
     ('kw, 'o) PrioritizedReplayBuffer ReplayBufferManager" where
  "vector_set_beta b m = m\<lparr>buffers := map (set_beta b) (buffers m)\<rparr>"

section \<open>The annealing schedule of the Atari Rainbow example (atari_rainbow.py)\<close>

text \<open>
  The arguments that \<^verbatim>\<open>train_fn\<close> reads; \<open>arg_beta\<close> is \<^verbatim>\<open>args.beta\<close>. The parser
  gives a float for each of the four rates and an int for \<^verbatim>\<open>beta_anneal_step\<close>. What
  the function does is to call the policy, the logger and the buffer, so its result is the
  list of these calls in order, with the error that ended it, if any.
\<close>

record rainbow_args =
  eps_train :: pyfloat
  eps_train_final :: pyfloat
  no_priority :: bool
  arg_beta :: pyfloat
  beta_final :: pyfloat
  beta_anneal_step :: int

datatype call =
    Policy_set_eps pyfloat
  | Logger_write string int string pyfloat
  | Buffer_set_beta pyfloat

text \<open>
  The two assignments of \<^verbatim>\<open>train_fn\<close>. In \<^verbatim>\<open>env_step / 1e6\<close> the int becomes a
  float and the division is that of floats; \<^verbatim>\<open>env_step / args.beta_anneal_step\<close> is
  the true division of two ints. The comparison of an int with \<^verbatim>\<open>1e6\<close> is exact.
\<close>

definition train_eps :: "rainbow_args \<Rightarrow> int \<Rightarrow> error + pyfloat" where
  "train_eps args env_step =
     (if env_step \<le> 1000000
      then case float_of_int env_step of
             Inl e \<Rightarrow> Inl e
           | Inr x \<Rightarrow>
               (case float_truediv x (Finite 1000000) of
                  Inl e \<Rightarrow> Inl e
                | Inr q \<Rightarrow>
                    Inr (float_sub (eps_train args)
                           (float_mul q (float_sub (eps_train args) (eps_train_final args)))))
      else Inr (eps_train_final args))"

definition train_beta :: "rainbow_args \<Rightarrow> int \<Rightarrow> error + pyfloat" where
  "train_beta args env_step =
     (if env_step \<le> beta_anneal_step args
      then case int_truediv env_step (beta_anneal_step args) of
             Inl e \<Rightarrow> Inl e
           | Inr q \<Rightarrow>
               Inr (float_sub (arg_beta args)
                      (float_mul q (float_sub (arg_beta args) (beta_final args))))
      else Inr (beta_final args))"

definition train_fn :: "rainbow_args \<Rightarrow> int \<Rightarrow> int \<Rightarrow> call list \<times> error option" where
  "train_fn args epoch env_step =
     (case train_eps args env_step of
        Inl e \<Rightarrow> ([], Some e)
      | Inr eps \<Rightarrow>
          (let calls = Policy_set_eps eps
                       # (if env_step mod 1000 = 0
                          then [Logger_write ''train/env_step'' env_step ''train/eps'' eps]
                          else [])
           in if \<not> no_priority args
              then case train_beta args env_step of
                     Inl e \<Rightarrow> (calls, Some e)
                   | Inr b \<Rightarrow>
                       (let beta = b
                        in (calls @ Buffer_set_beta beta
                              # (if env_step mod 1000 = 0
                                 then [Logger_write ''train/env_step'' env_step ''train/beta'' beta]
                                 else []),
                            None))
              else (calls, None)))"

text \<open>The arguments of the \<^verbatim>\<open>buffer.set_beta\<close> calls in a list of calls.\<close>

fun set_beta_args :: "call list \<Rightarrow> pyfloat list" where
  "set_beta_args [] = []"
| "set_beta_args (Buffer_set_beta b # cs) = b # set_beta_args cs"
| "set_beta_args (c # cs) = set_beta_args cs"

section \<open>The pickling wrapper (envs/utils.py)\<close>

text \<open>
  An object is its attribute \<^verbatim>\<open>data\<close>, absent on an object that the unpickler has
  created and not yet filled. \<^verbatim>\<open>cloudpickle.dumps\<close> and \<^verbatim>\<open>cloudpickle.loads\<close>
  belong to a library and are parameters; either may raise.
\<close>

record 'a CloudpickleWrapper =
  data :: "'a option"

definition CloudpickleWrapper_init :: "'a \<Rightarrow> 'a CloudpickleWrapper" where
  "CloudpickleWrapper_init v = \<lparr>data = Some v\<rparr>"

definition getstate :: "('a \<Rightarrow> error + string) \<Rightarrow> 'a CloudpickleWrapper \<Rightarrow> error + string" where
  "getstate dumps self =
     (case data self of None \<Rightarrow> Inl (AttributeError ''data'') | Some v \<Rightarrow> dumps v)"

definition setstate ::
  "(string \<Rightarrow> error + 'a) \<Rightarrow> 'a CloudpickleWrapper \<Rightarrow> string \<Rightarrow> error + 'a CloudpickleWrapper" where
  "setstate loads self s =
     (case loads s of Inl e \<Rightarrow> Inl e | Inr v \<Rightarrow> Inr (self\<lparr>data := Some v\<rparr>))"

section \<open>The arguments of PPO and the penalty agent (rl_args.py, ppo_penalty.py)\<close>

datatype pyval = PNone | PBool bool | PInt int | PFloat real | PStr string

text \<open>
  A dataclass is the list of its fields with their defaults, an instance the map from its
  field names to values; reading an attribute that the instance does not have raises
  \<^verbatim>\<open>AttributeError\<close>.
\<close>

definition RLArguments_defaults :: "(string \<times> pyval) list" where
  "RLArguments_defaults =
     [(''project'', PStr ''rltoolkit''),
      (''algo_name'', PStr ''dqn''),
      (''use_cuda'', PBool True),
      (''torch_deterministic'', PBool False),
      (''seed'', PInt 42),
      (''env_id'', PStr ''CartPole-v0''),
      (''num_envs'', PInt 10),
      (''capture_video'', PNone),
      (''buffer_size'', PInt 10000),
      (''batch_size'', PInt 32),
      (''gamma'', PFloat (99 / 100)),
      (''eval_episodes'', PInt 10),
      (''work_dir'', PStr ''work_dirs''),
      (''save_model'', PBool False),
      (''train_log_interval'', PInt 5),
      (''test_log_interval'', PInt 10),
      (''save_interval'', PInt 1000),
      (''logger'', PStr ''wandb'')]"

definition PPOArguments_defaults :: "(string \<times> pyval) list" where
  "PPOArguments_defaults =
     RLArguments_defaults @
     [(''hidden_dim'', PInt 128),
      (''learning_rate'', PFloat (1 / 10000)),
      (''actor_lr'', PFloat (1 / 10000)),
      (''critic_lr'', PFloat (1 / 10000)),
      (''epsilon'', PFloat (1 / 100000)),
      (''gae_lambda'', PFloat (95 / 100)),
      (''value_loss_coef'', PFloat (1 / 2)),
      (''entropy_coef'', PFloat (1 / 100)),
      (''clip_vloss'', PBool True),
      (''clip_param'', PFloat (1 / 5)),
      (''max_grad_norm'', PFloat 1),
      (''target_kl'', PNone),
      (''num_episode'', PInt 1000),
      (''rollout_length'', PInt 128)]"

definition getattr :: "(string \<rightharpoonup> pyval) \<Rightarrow> string \<Rightarrow> error + pyval" where
  "getattr obj name = (case obj name of None \<Rightarrow> Inl (AttributeError name) | Some v \<Rightarrow> Inr v)"

fun truthy :: "pyval \<Rightarrow> bool" where
  "truthy PNone = False"
| "truthy (PBool b) = b"
| "truthy (PInt i) = (i \<noteq> 0)"
| "truthy (PFloat x) = (x \<noteq> 0)"
| "truthy (PStr s) = (s \<noteq> [])"

text \<open>
  The tensor computations of \<^verbatim>\<open>learn\<close> belong to the tensor library and are
  parameters: the forward pass over the batch, the normalisation of the advantages, the
  three losses, the backward pass (with \<^verbatim>\<open>zero_grad\<close>), the optimizer step (with the
  gradient clipping) and the metrics.
\<close>

record ('net, 'opt, 'batch, 'fwd, 'loss) tensor_ops =
  forward :: "'net \<Rightarrow> 'batch \<Rightarrow> error + 'fwd"
  normalize :: "'batch \<Rightarrow> 'batch"
  actor_loss :: "'fwd \<Rightarrow> 'batch \<Rightarrow> pyval \<Rightarrow> error + 'loss"
  value_loss :: "'fwd \<Rightarrow> 'batch \<Rightarrow> pyval \<Rightarrow> pyval \<Rightarrow> error + 'loss"
  total_loss :: "'fwd \<Rightarrow> 'loss \<Rightarrow> 'loss \<Rightarrow> pyval \<Rightarrow> pyval \<Rightarrow> error + 'loss"
  backward :: "'opt \<Rightarrow> 'net \<Rightarrow> 'loss \<Rightarrow> error + ('opt \<times> 'net)"
  step :: "'opt \<Rightarrow> 'net \<Rightarrow> pyval \<Rightarrow> error + ('opt \<times> 'net)"
  metrics :: "'fwd \<Rightarrow> 'loss \<Rightarrow> 'loss \<Rightarrow> 'loss \<Rightarrow> pyval \<Rightarrow> (string \<times> real) list"

record ('net, 'opt) PPOPenaltyAgent =
  args :: "string \<rightharpoonup> pyval"
  actor_critic :: 'net
  optimizer :: 'opt
  learner_update_step :: nat

text \<open>
  A statement that may raise, followed by the rest of the method: on an error the method
  ends with the object as it is at that point.
\<close>

definition attempt ::
  "error + 'a \<Rightarrow> 's \<Rightarrow> ('a \<Rightarrow> (error + 'r) \<times> 's) \<Rightarrow> (error + 'r) \<times> 's" where
  "attempt r s k = (case r of Inl e \<Rightarrow> (Inl e, s) | Inr v \<Rightarrow> k v)"

text \<open>
  \<^verbatim>\<open>PPOPenaltyAgent.learn\<close>: the result is the metrics or the error, with the agent as
  the call leaves it. The attributes of \<^verbatim>\<open>self.args\<close> are read in the order of the
  source.
\<close>

definition learn ::
  "('net, 'opt, 'batch, 'fwd, 'loss) tensor_ops \<Rightarrow> ('net, 'opt) PPOPenaltyAgent \<Rightarrow> 'batch \<Rightarrow>
     (error + (string \<times> real) list) \<times> ('net, 'opt) PPOPenaltyAgent" where
  "learn ops self batch =
     attempt (forward ops (actor_critic self) batch) self (\<lambda>fwd.
     attempt (getattr (args self) ''norm_advantages'') self (\<lambda>norm.
     let batch' = (if truthy norm then normalize ops batch else batch) in
     attempt (getattr (args self) ''clip_param'') self (\<lambda>clip.
     attempt (actor_loss ops fwd batch' clip) self (\<lambda>al.
     attempt (getattr (args self) ''clip_vloss'') self (\<lambda>cv.
     attempt (value_loss ops fwd batch' cv clip) self (\<lambda>vl.
     attempt (getattr (args self) ''value_loss_coef'') self (\<lambda>vc.
     attempt (getattr (args self) ''entropy_coef'') self (\<lambda>ec.
     attempt (total_loss ops fwd al vl vc ec) self (\<lambda>loss.
     attempt (backward ops (optimizer self) (actor_critic self) loss) self (\<lambda>(opt1, net1).
     let self1 = self\<lparr>actor_critic := net1, optimizer := opt1\<rparr> in
     attempt (getattr (args self) ''max_grad_norm'') self1 (\<lambda>mg.
     attempt (step ops opt1 net1 mg) self1 (\<lambda>(opt2, net2).
     (Inr (metrics ops fwd loss vl al clip),
      self\<lparr>actor_critic := net2, optimizer := opt2,
           learner_update_step := learner_update_step self + 1\<rparr>)))))))))))))"

section \<open>Rounding to a double\<close>

lemma two_powi_Suc: "(2::real) powi (e + 1) = 2 * 2 powi e"
  by (simp add: power_int_add)

lemma two_powi_pred: "(2::real) powi (e - 1) = 2 powi e / 2"
  by (simp add: power_int_diff)

lemma expo_up_spec:
  "1 \<le> x \<Longrightarrow> n \<le> 1023 \<Longrightarrow>
     n \<le> expo_up x n \<and> expo_up x n \<le> 1023
     \<and> 2 powi (expo_up x n - n) \<le> x
     \<and> (expo_up x n < 1023 \<longrightarrow> x < 2 powi (expo_up x n - n + 1))"
proof (induction x n rule: expo_up.induct)
  case (1 x n)
  show ?case
  proof (cases "x < 2 \<or> 1023 \<le> n")
    case True
    then have "expo_up x n = n" by (subst expo_up.simps) simp
    then show ?thesis using True "1.prems" by auto
  next
    case False
    then have r: "expo_up x n = expo_up (x / 2) (n + 1)" by (subst expo_up.simps) simp
    let ?r = "expo_up (x / 2) (n + 1)"
    have "1 \<le> x / 2" "n + 1 \<le> 1023" using False by simp_all
    from "1.IH" [OF False this]
    have IH: "n + 1 \<le> ?r" "?r \<le> 1023" "2 powi (?r - (n + 1)) \<le> x / 2"
      "?r < 1023 \<longrightarrow> x / 2 < 2 powi (?r - (n + 1) + 1)"
      by blast+
    have e1: "(2::real) powi (?r - (n + 1)) = 2 powi (?r - n) / 2"
      by (simp add: power_int_diff power_int_add)
    have e2: "(2::real) powi (?r - (n + 1) + 1) = 2 powi (?r - n)"
      by simp
    have e3: "(2::real) powi (?r - n + 1) = 2 * 2 powi (?r - n)"
      by (rule two_powi_Suc)
    have "2 powi (?r - n) \<le> x"
      using IH(3) unfolding e1 by simp
    moreover have "?r < 1023 \<longrightarrow> x < 2 powi (?r - n + 1)"
      using IH(4) unfolding e2 e3 by (simp add: mult.commute)
    ultimately show ?thesis using IH(1,2) unfolding r by simp
  qed
qed

lemma expo_down_spec:
  "0 \<le> x \<Longrightarrow> x < 2 \<Longrightarrow> - 1022 \<le> n \<Longrightarrow>
     - 1022 \<le> expo_down x n \<and> expo_down x n \<le> n
     \<and> (- 1022 < expo_down x n \<longrightarrow> 2 powi (expo_down x n - n) \<le> x)
     \<and> x < 2 powi (expo_down x n - n + 1)"
proof (induction x n rule: expo_down.induct)
  case (1 x n)
  show ?case
  proof (cases "1 \<le> x \<or> n \<le> - 1022")
    case True
    then have "expo_down x n = n" by (subst expo_down.simps) simp
    then show ?thesis using True "1.prems" by auto
  next
    case False
    then have r: "expo_down x n = expo_down (2 * x) (n - 1)" by (subst expo_down.simps) simp
    let ?r = "expo_down (2 * x) (n - 1)"
    have "0 \<le> 2 * x" "2 * x < 2" "- 1022 \<le> n - 1" using False "1.prems" by simp_all
    from "1.IH" [OF False this]
    have IH: "- 1022 \<le> ?r" "?r \<le> n - 1" "- 1022 < ?r \<longrightarrow> 2 powi (?r - (n - 1)) \<le> 2 * x"
      "2 * x < 2 powi (?r - (n - 1) + 1)"
      by blast+
    have e1: "(2::real) powi (?r - (n - 1)) = 2 * 2 powi (?r - n)"
      by (simp add: power_int_diff power_int_add)
    have e2: "(2::real) powi (?r - (n - 1) + 1) = 2 * 2 powi (?r - n + 1)"
      by (simp add: power_int_diff power_int_add)
    have "- 1022 < ?r \<longrightarrow> 2 powi (?r - n) \<le> x"
      using IH(3) unfolding e1 by simp
    moreover have "x < 2 powi (?r - n + 1)"
      using IH(4) unfolding e2 by simp
    ultimately show ?thesis using IH(1,2) unfolding r by simp
  qed
qed

lemma exponent_spec:
  "- 1022 \<le> exponent x" "exponent x \<le> 1023"
  "- 1022 < exponent x \<Longrightarrow> 2 powi exponent x \<le> \<bar>x\<bar>"
  "exponent x < 1023 \<Longrightarrow> \<bar>x\<bar> < 2 powi (exponent x + 1)"
proof -
  have "- 1022 \<le> exponent x \<and> exponent x \<le> 1023
      \<and> (- 1022 < exponent x \<longrightarrow> 2 powi exponent x \<le> \<bar>x\<bar>)
      \<and> (exponent x < 1023 \<longrightarrow> \<bar>x\<bar> < 2 powi (exponent x + 1))"
  proof (cases "1 \<le> \<bar>x\<bar>")
    case True
    then show ?thesis
      using expo_up_spec [of "\<bar>x\<bar>" 0] by (simp add: exponent_def)
  next
    case False
    then show ?thesis
      using expo_down_spec [of "\<bar>x\<bar>" 0] by (simp add: exponent_def)
  qed
  then show "- 1022 \<le> exponent x" "exponent x \<le> 1023"
    "- 1022 < exponent x \<Longrightarrow> 2 powi exponent x \<le> \<bar>x\<bar>"
    "exponent x < 1023 \<Longrightarrow> \<bar>x\<bar> < 2 powi (exponent x + 1)"
    by blast+
qed

lemma exponent_unique:
  assumes "- 1022 \<le> e" "e \<le> 1023"
    and "- 1022 < e \<Longrightarrow> 2 powi e \<le> \<bar>x\<bar>"
    and "e < 1023 \<Longrightarrow> \<bar>x\<bar> < 2 powi (e + 1)"
  shows "exponent x = e"
proof (rule ccontr)
  assume ne: "exponent x \<noteq> e"
  note s = exponent_spec [of x]
  show False
  proof (cases "exponent x < e")
    case True
    then have "\<bar>x\<bar> < 2 powi (exponent x + 1)" using s(2,4) assms(2) by simp
    moreover have "2 powi (exponent x + 1) \<le> (2::real) powi e"
      using True by (intro power_int_increasing) simp_all
    moreover have "2 powi e \<le> \<bar>x\<bar>" using assms(3) True s(1) by simp
    ultimately show False by simp
  next
    case False
    then have lt: "e < exponent x" using ne by simp
    then have "\<bar>x\<bar> < 2 powi (e + 1)" using assms(4) s(2) by simp
    moreover have "2 powi (e + 1) \<le> (2::real) powi exponent x"
      using lt by (intro power_int_increasing) simp_all
    moreover have "2 powi exponent x \<le> \<bar>x\<bar>" using s(3) lt assms(1) by simp
    ultimately show False by simp
  qed
qed

lemma exponent_minus [simp]: "exponent (- x) = exponent x"
  by (simp add: exponent_def)

lemma exponent_mono:
  assumes "\<bar>x\<bar> \<le> \<bar>y\<bar>"
  shows "exponent x \<le> exponent y"
proof (rule ccontr)
  assume "\<not> exponent x \<le> exponent y"
  then have lt: "exponent y < exponent x" by simp
  note sx = exponent_spec [of x] and sy = exponent_spec [of y]
  have "\<bar>y\<bar> < 2 powi (exponent y + 1)" using sy(4) lt sx(2) by simp
  moreover have "2 powi (exponent y + 1) \<le> (2::real) powi exponent x"
    using lt by (intro power_int_increasing) simp_all
  moreover have "2 powi exponent x \<le> \<bar>x\<bar>" using sx(3) lt sy(1) by simp
  ultimately show False using assms by simp
qed

lemma round_even_cases:
  "round_even y = \<lfloor>y\<rfloor> \<and> y - of_int \<lfloor>y\<rfloor> \<le> 1 / 2
   \<or> round_even y = \<lfloor>y\<rfloor> + 1 \<and> 1 / 2 \<le> y - of_int \<lfloor>y\<rfloor>"
  by (auto simp: round_even_def Let_def)

lemma round_even_of_int [simp]: "round_even (of_int z) = z"
  by (simp add: round_even_def)

lemma round_even_0 [simp]: "round_even 0 = 0"
  using round_even_of_int [of 0] by simp

lemma round_even_error: "\<bar>of_int (round_even y) - y\<bar> \<le> 1 / 2"
proof -
  have "of_int \<lfloor>y\<rfloor> \<le> y" "y < of_int \<lfloor>y\<rfloor> + 1" by linarith+
  then show ?thesis using round_even_cases [of y] by auto
qed

lemma round_even_mono:
  assumes "y \<le> y'"
  shows "round_even y \<le> round_even y'"
proof (cases "\<lfloor>y\<rfloor> = \<lfloor>y'\<rfloor>")
  case True
  then have "y - of_int \<lfloor>y\<rfloor> \<le> y' - of_int \<lfloor>y'\<rfloor>" using assms by simp
  then show ?thesis using True by (auto simp: round_even_def Let_def)
next
  case False
  then have "\<lfloor>y\<rfloor> < \<lfloor>y'\<rfloor>" using assms floor_mono [of y y'] by linarith
  moreover have "round_even y \<le> \<lfloor>y\<rfloor> + 1" using round_even_cases [of y] by auto
  moreover have "\<lfloor>y'\<rfloor> \<le> round_even y'" using round_even_cases [of y'] by auto
  ultimately show ?thesis by linarith
qed

lemma round_even_minus: "round_even (- y) = - round_even y"
proof (cases "y = of_int \<lfloor>y\<rfloor>")
  case True
  then obtain z where "y = of_int z" ..
  then have "round_even (- y) = round_even (of_int (- z))" by simp
  also have "\<dots> = - z" by (rule round_even_of_int)
  finally show ?thesis using \<open>y = of_int z\<close> by simp
next
  case False
  let ?f = "\<lfloor>y\<rfloor>"
  have lt: "of_int ?f < y" "y < of_int ?f + 1" using False by linarith+
  have fl: "\<lfloor>- y\<rfloor> = - ?f - 1"
  proof (rule floor_unique)
    have "real_of_int (- ?f - 1) = - real_of_int ?f - 1" by simp
    then show "of_int (- ?f - 1) \<le> - y" using lt(2) by linarith
    have "real_of_int (- ?f - 1) + 1 = - real_of_int ?f" by simp
    then show "- y < of_int (- ?f - 1) + 1" using lt(1) by linarith
  qed
  have fr: "- y - of_int (- ?f - 1) = 1 - (y - of_int ?f)" by simp
  have ev: "even (- ?f - 1) \<longleftrightarrow> odd ?f" by simp
  show ?thesis
    unfolding round_even_def Let_def fl fr ev by auto
qed

lemma quantum_pos: "0 < (2::real) powi e"
  by simp

lemma round_double_0 [simp]: "round_double 0 = 0"
  by (simp add: round_double_def)

lemma round_double_minus: "round_double (- x) = - round_double x"
  by (simp add: round_double_def Let_def round_even_minus)

lemma round_double_error:
  "\<bar>round_double x - x\<bar> \<le> 2 powi (exponent x - 52) / 2"
proof -
  let ?q = "(2::real) powi (exponent x - 52)"
  have q: "0 < ?q" by simp
  have "\<bar>of_int (round_even (x / ?q)) - x / ?q\<bar> \<le> 1 / 2" by (rule round_even_error)
  then have "\<bar>of_int (round_even (x / ?q)) - x / ?q\<bar> * ?q \<le> 1 / 2 * ?q"
    using q by (simp only: mult_le_cancel_right_pos)
  moreover have "\<bar>of_int (round_even (x / ?q)) - x / ?q\<bar> * ?q
      = \<bar>of_int (round_even (x / ?q)) * ?q - x\<bar>"
  proof -
    have "\<bar>of_int (round_even (x / ?q)) - x / ?q\<bar> * ?q
        = \<bar>(of_int (round_even (x / ?q)) - x / ?q) * ?q\<bar>"
      using q by (simp add: abs_mult)
    also have "(of_int (round_even (x / ?q)) - x / ?q) * ?q = of_int (round_even (x / ?q)) * ?q - x"
      using q by (simp add: left_diff_distrib)
    finally show ?thesis .
  qed
  ultimately show ?thesis by (simp add: round_double_def Let_def)
qed

lemma round_double_nonneg: "0 \<le> x \<Longrightarrow> 0 \<le> round_double x"
proof -
  assume "0 \<le> x"
  then have "0 \<le> x / 2 powi (exponent x - 52)" by simp
  then have "round_even 0 \<le> round_even (x / 2 powi (exponent x - 52))" by (rule round_even_mono)
  then have "0 \<le> real_of_int (round_even (x / 2 powi (exponent x - 52)))" by simp
  then show ?thesis by (simp add: round_double_def Let_def)
qed

lemma quantum_split: "(2::real) powi (e - 52) * 2 ^ 52 = 2 powi e"
proof -
  have "(2::real) powi (e - 52) * 2 powi 52 = 2 powi (e - 52 + 52)"
    by (rule power_int_add [symmetric]) simp
  then show ?thesis by simp
qed

lemma round_even_numeral [simp]: "round_even (numeral n) = numeral n"
  using round_even_of_int [of "numeral n"] by simp

lemma round_even_1 [simp]: "round_even 1 = 1"
  using round_even_of_int [of 1] by simp

lemma round_double_exact:
  assumes "x = of_int z * 2 powi (exponent x - 52)"
  shows "round_double x = x"
proof -
  let ?q = "(2::real) powi (exponent x - 52)"
  have "x / ?q = of_int z" using assms by (metis nonzero_eq_divide_eq power_int_eq_0_iff zero_neq_numeral)
  then show ?thesis using assms by (simp add: round_double_def Let_def)
qed

lemma exponent_1 [simp]: "exponent 1 = 0"
  by (rule exponent_unique) simp_all

lemma round_double_of_int:
  assumes "\<bar>n\<bar> < 2 ^ 53"
  shows "round_double (of_int n) = of_int n"
proof (cases "n = 0")
  case True
  then show ?thesis by simp
next
  case False
  let ?x = "real_of_int n"
  let ?e = "exponent ?x"
  have one: "1 \<le> \<bar>?x\<bar>" using False by (simp add: abs_if)
  then have "\<bar>1 :: real\<bar> \<le> \<bar>?x\<bar>" by simp
  then have "exponent 1 \<le> ?e" by (rule exponent_mono)
  then have e0: "0 \<le> ?e" by simp
  have lt: "\<bar>?x\<bar> < 2 ^ 53" using assms by (metis of_int_abs of_int_less_numeral_power_cancel_iff)
  have e52: "?e \<le> 52"
  proof (rule ccontr)
    assume "\<not> ?e \<le> 52"
    then have "53 \<le> ?e" by simp
    then have "(2::real) powi 53 \<le> 2 powi ?e" by (intro power_int_increasing) simp_all
    moreover have "2 powi ?e \<le> \<bar>?x\<bar>" using exponent_spec(3) [of ?x] e0 by simp
    ultimately show False using lt by simp
  qed
  define k where "k = nat (52 - ?e)"
  have "?e - 52 = - int k" using e52 by (simp add: k_def)
  then have q: "(2::real) powi (?e - 52) = 1 / 2 ^ k"
    by (simp add: power_int_minus_divide)
  have "?x = of_int (n * 2 ^ k) * 2 powi (?e - 52)"
    unfolding q by simp
  then show ?thesis by (rule round_double_exact)
qed

lemma round_double_mono_nonneg:
  assumes "0 \<le> x" and "x \<le> y"
  shows "round_double x \<le> round_double y"
proof -
  let ?e = "exponent x" and ?e' = "exponent y"
  let ?q = "(2::real) powi (?e - 52)" and ?q' = "(2::real) powi (?e' - 52)"
  have "\<bar>x\<bar> \<le> \<bar>y\<bar>" using assms by simp
  then have le: "?e \<le> ?e'" by (rule exponent_mono)
  show ?thesis
  proof (cases "?e = ?e'")
    case True
    have "x / ?q \<le> y / ?q" using assms(2) by (simp add: divide_right_mono)
    then have "round_even (x / ?q) \<le> round_even (y / ?q)" by (rule round_even_mono)
    then have "real_of_int (round_even (x / ?q)) * ?q \<le> real_of_int (round_even (y / ?q)) * ?q"
      by (simp add: mult_right_mono)
    then show ?thesis by (simp add: round_double_def Let_def True)
  next
    case False
    then have lt: "?e < ?e'" using le by simp
    have top: "?e < 1023" using lt exponent_spec(2) [of y] by simp
    have bot: "- 1022 < ?e'" using lt exponent_spec(1) [of x] by simp
    have "\<bar>x\<bar> < 2 powi (?e + 1)" by (rule exponent_spec(4) [OF top])
    then have "x < 2 powi (?e + 1)" by simp
    also have "(2::real) powi (?e + 1) = ?q * 2 ^ 53"
      using quantum_split [of "?e + 1"] by (simp add: power_int_add power_int_diff)
    finally have "x / ?q < 2 ^ 53" by (simp add: pos_divide_less_eq mult.commute)
    then have "round_even (x / ?q) \<le> round_even (of_int (2 ^ 53))"
      by (intro round_even_mono) simp
    then have "real_of_int (round_even (x / ?q)) \<le> 2 ^ 53" by simp
    then have "real_of_int (round_even (x / ?q)) * ?q \<le> 2 ^ 53 * ?q"
      by (simp add: mult_right_mono)
    also have "2 ^ 53 * ?q = 2 powi (?e + 1)"
      using quantum_split [of "?e + 1"] by (simp add: power_int_add power_int_diff)
    finally have low: "round_double x \<le> 2 powi (?e + 1)" by (simp add: round_double_def Let_def)
    have "2 powi ?e' \<le> \<bar>y\<bar>" by (rule exponent_spec(3) [OF bot])
    then have "2 powi ?e' \<le> y" using assms by simp
    then have "?q' * 2 ^ 52 \<le> y" by (simp only: quantum_split)
    then have "2 ^ 52 \<le> y / ?q'" by (simp add: pos_le_divide_eq mult.commute)
    then have "round_even (of_int (2 ^ 52)) \<le> round_even (y / ?q')"
      by (intro round_even_mono) simp
    then have r: "2 ^ 52 \<le> real_of_int (round_even (y / ?q'))" by simp
    have "2 ^ 52 * ?q' \<le> real_of_int (round_even (y / ?q')) * ?q'"
      by (rule mult_right_mono [OF r]) simp
    moreover have "2 ^ 52 * ?q' = 2 powi ?e'"
      using quantum_split [of ?e'] by (simp only: mult.commute)
    ultimately have "2 powi ?e' \<le> real_of_int (round_even (y / ?q')) * ?q'" by (simp only:)
    then have high: "2 powi ?e' \<le> round_double y" by (simp only: round_double_def Let_def)
    have "(2::real) powi (?e + 1) \<le> 2 powi ?e'"
      using lt by (intro power_int_increasing) simp_all
    then show ?thesis using low high by linarith
  qed
qed

lemma round_double_mono:
  assumes "x \<le> y"
  shows "round_double x \<le> round_double y"
proof (cases "0 \<le> x")
  case True
  then show ?thesis using assms by (rule round_double_mono_nonneg)
next
  case False
  show ?thesis
  proof (cases "0 \<le> y")
    case True
    have "0 \<le> round_double (- x)" using False by (intro round_double_nonneg) simp
    then have "round_double x \<le> 0" by (simp add: round_double_minus)
    moreover have "0 \<le> round_double y" using True by (rule round_double_nonneg)
    ultimately show ?thesis by simp
  next
    case neg: False
    then have "0 \<le> - y" "- y \<le> - x" using assms by simp_all
    then have "round_double (- y) \<le> round_double (- x)" by (rule round_double_mono_nonneg)
    then show ?thesis by (simp add: round_double_minus)
  qed
qed
lemma round_double_1 [simp]: "round_double 1 = 1"
  using round_double_of_int [of 1] by simp

lemma round_double_unit:
  assumes "0 \<le> x" and "x \<le> 1"
  shows "0 \<le> round_double x" and "round_double x \<le> 1"
  using round_double_mono [OF assms(1)] round_double_mono [OF assms(2)] by simp_all

lemma not_overflows_small: "\<bar>d\<bar> \<le> 2 ^ 53 \<Longrightarrow> \<not> overflows d"
proof -
  assume "\<bar>d\<bar> \<le> 2 ^ 53"
  moreover have "(2::real) ^ 53 < 2 ^ 1024" by (rule power_strict_increasing) simp_all
  ultimately show ?thesis by (simp add: overflows_def)
qed

lemma round_double_idem_nonneg:
  assumes x: "0 \<le> x" and fin: "\<not> overflows (round_double x)"
  shows "round_double (round_double x) = round_double x"
proof -
  let ?e = "exponent x"
  let ?q = "(2::real) powi (?e - 52)"
  let ?z = "round_even (x / ?q)"
  let ?r = "real_of_int ?z * ?q"
  have r: "round_double x = ?r" by (simp add: round_double_def Let_def)
  have qpos: "0 < ?q" by simp
  have q52: "2 ^ 52 * ?q = 2 powi ?e" using quantum_split [of ?e] by (simp only: mult.commute)
  have q53: "2 ^ 53 * ?q = 2 powi (?e + 1)"
    using quantum_split [of "?e + 1"] by (simp add: power_int_add power_int_diff)
  have "0 \<le> x / ?q" using x by simp
  then have "round_even 0 \<le> ?z" by (rule round_even_mono)
  then have z0: "0 \<le> ?z" by simp
  then have r0: "0 \<le> ?r" by simp
  have low: "2 ^ 52 \<le> real_of_int ?z" if "- 1022 < ?e"
  proof -
    have "2 powi ?e \<le> \<bar>x\<bar>" by (rule exponent_spec(3) [OF that])
    then have "2 ^ 52 * ?q \<le> x" using x by (simp only: q52 abs_of_nonneg)
    then have "2 ^ 52 \<le> x / ?q" by (simp add: pos_le_divide_eq)
    then have "round_even (of_int (2 ^ 52)) \<le> ?z" by (intro round_even_mono) simp
    then show ?thesis by simp
  qed
  have high: "real_of_int ?z \<le> 2 ^ 53"
  proof (cases "?e < 1023")
    case True
    have "\<bar>x\<bar> < 2 powi (?e + 1)" by (rule exponent_spec(4) [OF True])
    then have "x < 2 ^ 53 * ?q" using x by (simp only: q53 abs_of_nonneg)
    then have "x / ?q \<le> 2 ^ 53" by (simp add: pos_divide_less_eq less_imp_le)
    then have "?z \<le> round_even (of_int (2 ^ 53))" by (intro round_even_mono) simp
    then show ?thesis by simp
  next
    case False
    then have e: "?e = 1023" using exponent_spec(2) [of x] by simp
    have "?r < 2 ^ 1024" using fin r0 by (simp add: overflows_def r)
    moreover have "(2::real) ^ 1024 = 2 ^ 53 * ?q"
      unfolding q53 e by simp
    ultimately have "real_of_int ?z * ?q < 2 ^ 53 * ?q" by simp
    then have "real_of_int ?z < 2 ^ 53" using qpos by (simp only: mult_less_cancel_right_pos)
    then show ?thesis by simp
  qed
  show ?thesis
  proof (cases "real_of_int ?z = 2 ^ 53")
    case True
    have rv: "?r = 2 powi (?e + 1)" by (simp only: True q53)
    have ne: "?e \<noteq> 1023"
    proof
      assume e: "?e = 1023"
      have p: "(2::real) powi (1023 + 1) = 2 ^ 1024" by simp
      have "?r = 2 powi (1023 + 1)" using rv by (simp only: e)
      then have "?r = 2 ^ 1024" by (simp only: p)
      then have "round_double x = 2 ^ 1024" by (simp only: r)
      then show False using fin by (simp add: overflows_def)
    qed
    then have e: "?e < 1023" using exponent_spec(2) [of x] by simp
    have ex: "exponent ?r = ?e + 1"
    proof (rule exponent_unique)
      show "- 1022 \<le> ?e + 1" using exponent_spec(1) [of x] by simp
      show "?e + 1 \<le> 1023" using e by simp
      show "2 powi (?e + 1) \<le> \<bar>?r\<bar>" by (simp only: rv abs_of_pos [OF quantum_pos] order_refl)
      show "\<bar>?r\<bar> < 2 powi (?e + 1 + 1)"
        by (simp only: rv abs_of_pos [OF quantum_pos] two_powi_Suc [of "?e + 1"]) simp
    qed
    have "(2::real) powi (?e + 1) = of_int (2 ^ 52) * 2 powi (?e + 1 - 52)"
      using quantum_split [of "?e + 1"] by (simp add: mult.commute)
    with rv have b: "?r = of_int (2 ^ 52) * 2 powi (?e + 1 - 52)" by (rule trans)
    have "?r = of_int (2 ^ 52) * 2 powi (exponent ?r - 52)"
      by (subst ex) (rule b)
    then have "round_double ?r = ?r" by (rule round_double_exact)
    then show ?thesis by (simp only: r)
  next
    case False
    then have lt: "real_of_int ?z < 2 ^ 53" using high by simp
    have ex: "exponent ?r = ?e"
    proof (rule exponent_unique)
      show "- 1022 \<le> ?e" by (rule exponent_spec(1))
      show "?e \<le> 1023" by (rule exponent_spec(2))
      show "2 powi ?e \<le> \<bar>?r\<bar>" if "- 1022 < ?e"
      proof -
        have "2 ^ 52 * ?q \<le> real_of_int ?z * ?q"
          by (rule mult_right_mono [OF low [OF that]]) simp
        then show ?thesis using r0 by (simp only: q52 abs_of_nonneg)
      qed
      show "\<bar>?r\<bar> < 2 powi (?e + 1)"
      proof -
        have "real_of_int ?z * ?q < 2 ^ 53 * ?q"
          using lt qpos by (simp only: mult_less_cancel_right_pos)
        then show ?thesis using r0 by (simp only: q53 abs_of_nonneg)
      qed
    qed
    have "?r = of_int ?z * 2 powi (exponent ?r - 52)" by (simp only: ex)
    then have "round_double ?r = ?r" by (rule round_double_exact)
    then show ?thesis by (simp only: r)
  qed
qed

lemma round_double_idem:
  assumes "\<not> overflows (round_double x)"
  shows "round_double (round_double x) = round_double x"
proof (cases "0 \<le> x")
  case True
  then show ?thesis using assms by (rule round_double_idem_nonneg)
next
  case False
  then have "0 \<le> - x" by simp
  moreover have "\<not> overflows (round_double (- x))"
    using assms by (simp add: overflows_def round_double_minus)
  ultimately have "round_double (round_double (- x)) = round_double (- x)"
    by (rule round_double_idem_nonneg)
  then show ?thesis by (simp add: round_double_minus)
qed

lemma round_double_div_ceiling:
  fixes T k :: int
  assumes k: "0 < k" "k < 2 ^ 53" and T: "\<bar>T\<bar> < 2 ^ 53"
  shows "\<lceil>round_double (real_of_int T / real_of_int k)\<rceil> = \<lceil>real_of_int T / real_of_int k\<rceil>"
    and "\<bar>round_double (real_of_int T / real_of_int k)\<bar> \<le> 2 ^ 53"
proof -
  let ?x = "real_of_int T / real_of_int k"
  define c where "c = \<lceil>?x\<rceil>"
  have kr: "0 < real_of_int k" using k(1) by simp
  have "1 \<le> k" using k(1) by simp
  then have k1: "1 \<le> real_of_int k" by (simp only: of_int_1_le_iff)
  have kb: "real_of_int k < 2 ^ 53" using k(2) by (metis of_int_less_numeral_power_cancel_iff)
  have xc: "?x \<le> of_int c" "of_int c - 1 < ?x" unfolding c_def by linarith+
  have "\<bar>T\<bar> \<le> 2 ^ 53 - 1" using T by simp
  then have "real_of_int \<bar>T\<bar> \<le> real_of_int (2 ^ 53 - 1)" by (simp only: of_int_le_iff)
  then have Tb: "\<bar>real_of_int T\<bar> \<le> 2 ^ 53 - 1" by simp
  have "\<bar>?x\<bar> = \<bar>real_of_int T\<bar> / real_of_int k" using kr by simp
  also have "\<dots> \<le> \<bar>real_of_int T\<bar> / 1" by (rule divide_left_mono [OF k1]) (use kr in simp_all)
  finally have xT: "\<bar>?x\<bar> \<le> \<bar>real_of_int T\<bar>" by simp
  have xb: "\<bar>?x\<bar> \<le> real_of_int (2 ^ 53 - 1)" using xT Tb by simp
  have "c \<le> 2 ^ 53 - 1" unfolding c_def by (rule ceiling_le) (use xb in linarith)
  moreover have "- (2 ^ 53 - 1) \<le> c"
  proof -
    have "real_of_int (- (2 ^ 53 - 1)) \<le> ?x" using xb by linarith
    also have "?x \<le> of_int c" by (rule xc(1))
    finally show ?thesis by (simp only: of_int_le_iff)
  qed
  ultimately have cb: "\<bar>c\<bar> < 2 ^ 53" by simp
  have "round_double ?x \<le> round_double (of_int c)" by (rule round_double_mono [OF xc(1)])
  then have up: "round_double ?x \<le> of_int c" by (simp only: round_double_of_int [OF cb])
  have "real_of_int (c - 1) * real_of_int k < real_of_int T"
    using xc(2) kr by (simp add: pos_less_divide_eq)
  then have "real_of_int ((c - 1) * k) < real_of_int T" by (simp only: of_int_mult)
  then have "(c - 1) * k < T" by (simp only: of_int_less_iff)
  then have "(c - 1) * k + 1 \<le> T" by simp
  then have "real_of_int ((c - 1) * k + 1) \<le> real_of_int T" by (simp only: of_int_le_iff)
  then have "(real_of_int c - 1) * real_of_int k + 1 \<le> real_of_int T" by simp
  then have "((real_of_int c - 1) * real_of_int k + 1) / real_of_int k \<le> ?x"
    using kr by (simp only: divide_right_mono less_imp_le)
  then have step: "real_of_int c - 1 + 1 / real_of_int k \<le> ?x"
    using kr by (simp add: add_divide_distrib)
  have err: "\<bar>round_double ?x - ?x\<bar> \<le> 2 powi (exponent ?x - 52) / 2"
    by (rule round_double_error)
  have inv: "1 / 2 ^ 53 < 1 / real_of_int k"
    using kb kr by (simp add: divide_strict_left_mono)
  have q: "2 powi (exponent ?x - 52) / 2 < 1 / real_of_int k"
  proof (cases "- 1022 < exponent ?x")
    case True
    have "2 powi exponent ?x \<le> \<bar>?x\<bar>" by (rule exponent_spec(3) [OF True])
    also have "\<bar>?x\<bar> = \<bar>real_of_int T\<bar> / real_of_int k" using kr by simp
    also have "\<dots> < 2 ^ 53 / real_of_int k"
      using Tb kr by (intro divide_strict_right_mono) simp_all
    finally have "2 powi exponent ?x / 2 ^ 53 < 1 / real_of_int k"
      by (simp add: pos_divide_less_eq mult.commute)
    moreover have "(2::real) powi (exponent ?x - 52) / 2 = 2 powi exponent ?x / 2 ^ 53"
      using quantum_split [of "exponent ?x", symmetric] by simp
    ultimately show ?thesis by (simp only:)
  next
    case False
    then have e: "exponent ?x = - 1022" using exponent_spec(1) [of ?x] by simp
    have "(2::real) powi (- 1022 - 52) \<le> 2 powi (- 52)" by (intro power_int_increasing) simp_all
    then have "(2::real) powi (- 1022 - 52) / 2 \<le> 2 powi (- 52) / 2" by simp
    also have "(2::real) powi (- 52) / 2 = 1 / 2 ^ 53" by (simp add: power_int_minus_divide)
    finally show ?thesis using inv unfolding e by linarith
  qed
  have low: "real_of_int c - 1 < round_double ?x" using step err q by linarith
  have "\<lceil>round_double ?x\<rceil> = c" by (rule ceiling_unique) (use low up in simp_all)
  then show "\<lceil>round_double ?x\<rceil> = \<lceil>?x\<rceil>" by (simp only: c_def)
  have "\<bar>c\<bar> \<le> 2 ^ 53 - 1" using cb by simp
  then have "real_of_int \<bar>c\<bar> \<le> real_of_int (2 ^ 53 - 1)" by (simp only: of_int_le_iff)
  then have "\<bar>real_of_int c\<bar> \<le> 2 ^ 53 - 1" by simp
  then show "\<bar>round_double ?x\<bar> \<le> 2 ^ 53" using low up by linarith
qed

lemma sub_buffer_size_ceiling:
  assumes "0 < k" "k < 2 ^ 53" and "\<bar>T\<bar> < 2 ^ 53"
  shows "sub_buffer_size T k = Inr \<lceil>real_of_int T / real_of_int k\<rceil>"
proof -
  note c = round_double_div_ceiling [OF assms]
  have "\<not> overflows (round_double (real_of_int T / real_of_int k))"
    by (rule not_overflows_small [OF c(2)])
  then show ?thesis using assms(1)
    by (simp add: sub_buffer_size_def int_truediv_def Let_def c(1))
qed
section \<open>Float operations\<close>

lemma float_of_real_Finite:
  "\<not> overflows (round_double r) \<Longrightarrow> float_of_real r = Finite (round_double r)"
  by (simp add: float_of_real_def Let_def)

lemma float_of_real_cases:
  obtains "float_of_real r = Finite (round_double r)" and "\<not> overflows (round_double r)"
  | "float_of_real r = PosInf" | "float_of_real r = NegInf"
  by (cases "overflows (round_double r)"; cases "0 < round_double r")
    (simp_all add: float_of_real_def Let_def)

lemma float_of_real_0 [simp]: "float_of_real 0 = Finite 0"
  by (simp add: float_of_real_def overflows_def)

lemma float_of_real_idem:
  assumes "float_of_real r = Finite d"
  shows "float_of_real d = Finite d"
proof -
  have fin: "\<not> overflows (round_double r)" and d: "d = round_double r"
    using assms by (auto simp add: float_of_real_def Let_def split: if_splits)
  have "round_double d = d" unfolding d by (rule round_double_idem [OF fin])
  then show ?thesis using fin d by (simp add: float_of_real_def Let_def)
qed

lemma float_mul_one: "float_mul (Finite 1) (float_of_real r) = float_of_real r"
proof (cases r rule: float_of_real_cases)
  case 1
  have "float_of_real (round_double r) = Finite (round_double r)"
    by (rule float_of_real_idem [OF 1(1)])
  then show ?thesis by (simp add: 1(1))
qed simp_all

lemma float_mul_one_sub: "float_mul (Finite 1) (float_sub x y) = float_sub x y"
  by (cases x; cases y) (simp_all add: float_mul_one)

lemma float_of_real_mono:
  assumes "r \<le> s"
  shows "float_le (float_of_real r) (float_of_real s)"
proof -
  have "round_double r \<le> round_double s" by (rule round_double_mono [OF assms])
  then show ?thesis
    by (auto simp add: float_of_real_def Let_def overflows_def)
qed

lemma is_double_Finite: "is_double x \<longleftrightarrow> (\<exists>r. x = Finite r \<and> float_of_real r = Finite r)"
  by (cases x) (simp_all add: is_double_def)

lemma is_double_sub:
  assumes "is_double (float_sub x y)"
  obtains a b where "x = Finite a" and "y = Finite b"
    and "float_sub x y = Finite (round_double (a - b))"
    and "\<not> overflows (round_double (a - b))"
proof (cases x)
  case (Finite a)
  show ?thesis
  proof (cases y)
    case y: (Finite b)
    have d: "is_double (float_of_real (a - b))" using assms by (simp add: Finite y)
    show ?thesis
    proof (cases "a - b" rule: float_of_real_cases)
      case 1
      show ?thesis by (rule that [OF Finite y]) (simp_all add: Finite y 1)
    next
      case 2
      then show ?thesis using d by (simp add: is_double_def)
    next
      case 3
      then show ?thesis using d by (simp add: is_double_def)
    qed
  qed (use assms Finite in \<open>simp_all add: is_double_def\<close>)
next
  case PosInf
  then show ?thesis using assms by (cases y) (simp_all add: is_double_def)
next
  case NegInf
  then show ?thesis using assms by (cases y) (simp_all add: is_double_def)
next
  case NaN
  then show ?thesis using assms by (simp add: is_double_def)
qed

lemma float_sub_zero: "is_double x \<Longrightarrow> float_sub x (Finite 0) = x"
  by (auto simp add: is_double_Finite)

lemma int_truediv_unit:
  assumes "0 < A" and "0 \<le> e" and "e \<le> A"
  shows "int_truediv e A = Inr (Finite (round_double (real_of_int e / real_of_int A)))"
    and "0 \<le> round_double (real_of_int e / real_of_int A)"
    and "round_double (real_of_int e / real_of_int A) \<le> 1"
proof -
  let ?x = "real_of_int e / real_of_int A"
  have "0 \<le> ?x" and "?x \<le> 1" using assms by simp_all
  then show u: "0 \<le> round_double ?x" "round_double ?x \<le> 1" by (rule round_double_unit)+
  then have "\<bar>round_double ?x\<bar> \<le> 2 ^ 53" by simp
  then have "\<not> overflows (round_double ?x)" by (rule not_overflows_small)
  then show "int_truediv e A = Inr (Finite (round_double ?x))"
    using assms(1) by (simp add: int_truediv_def Let_def)
qed

lemma float_of_int_small:
  assumes "\<bar>n\<bar> < 2 ^ 53"
  shows "float_of_int n = Inr (Finite (real_of_int n))"
proof -
  have r: "round_double (real_of_int n) = real_of_int n" by (rule round_double_of_int [OF assms])
  have "\<bar>n\<bar> \<le> 2 ^ 53" using assms by simp
  then have "real_of_int \<bar>n\<bar> \<le> real_of_int (2 ^ 53)" by (simp only: of_int_le_iff)
  then have "\<bar>real_of_int n\<bar> \<le> 2 ^ 53" by simp
  then have "\<not> overflows (real_of_int n)" by (rule not_overflows_small)
  then show ?thesis by (simp add: float_of_int_def Let_def r)
qed
lemma round_double_huge: "round_double (2 ^ 1024) = 2 ^ 1024"
proof -
  have e: "exponent (2 ^ 1024 :: real) = 1023" by (rule exponent_unique) simp_all
  have p: "(2::real) ^ 1024 = of_int (2 ^ 53) * 2 powi (1023 - 52)" by simp
  have "(2::real) ^ 1024 = of_int (2 ^ 53) * 2 powi (exponent (2 ^ 1024 :: real) - 52)"
    by (subst e) (rule p)
  then show ?thesis by (rule round_double_exact)
qed

lemma overflows_huge:
  assumes "2 ^ 1024 \<le> \<bar>x\<bar>"
  shows "overflows (round_double x)"
proof (cases "0 \<le> x")
  case True
  then have "2 ^ 1024 \<le> x" using assms by simp
  then have "round_double (2 ^ 1024) \<le> round_double x" by (rule round_double_mono)
  then have "2 ^ 1024 \<le> round_double x" by (simp only: round_double_huge)
  then show ?thesis by (simp add: overflows_def)
next
  case False
  then have "2 ^ 1024 \<le> - x" using assms by simp
  then have "round_double (2 ^ 1024) \<le> round_double (- x)" by (rule round_double_mono)
  then have "2 ^ 1024 \<le> - round_double x" by (simp only: round_double_huge round_double_minus)
  then show ?thesis by (simp add: overflows_def)
qed

lemma float_of_int_overflow:
  assumes "2 ^ 1024 \<le> \<bar>n\<bar>"
  shows "float_of_int n = Inl OverflowError"
proof -
  have "real_of_int (2 ^ 1024) \<le> real_of_int \<bar>n\<bar>" using assms by (simp only: of_int_le_iff)
  then have "2 ^ 1024 \<le> \<bar>real_of_int n\<bar>" by simp
  then have "overflows (round_double (real_of_int n))" by (rule overflows_huge)
  then show ?thesis by (simp add: float_of_int_def Let_def)
qed

lemma sub_buffer_size_overflow:
  assumes "2 ^ 1024 \<le> \<bar>T\<bar>"
  shows "sub_buffer_size T 1 = Inl OverflowError"
proof -
  have "real_of_int (2 ^ 1024) \<le> real_of_int \<bar>T\<bar>" using assms by (simp only: of_int_le_iff)
  then have "2 ^ 1024 \<le> \<bar>real_of_int T\<bar>" by simp
  then have "overflows (round_double (real_of_int T))" by (rule overflows_huge)
  then show ?thesis by (simp add: sub_buffer_size_def int_truediv_def Let_def)
qed

section \<open>Construction of vector buffers\<close>

lemma list_comprehension_const:
  "list_comprehension (\<lambda>_. Inr b) is = Inr (replicate (length is) b)"
  by (induction "is") simp_all

lemma ceiling_quotient_bounds:
  fixes T k :: int
  assumes "0 < k"
  shows "T \<le> k * \<lceil>real_of_int T / real_of_int k\<rceil>"
    and "k * \<lceil>real_of_int T / real_of_int k\<rceil> < T + k"
proof -
  let ?c = "\<lceil>real_of_int T / real_of_int k\<rceil>"
  have kpos: "0 < real_of_int k" using assms by simp
  have "real_of_int T / real_of_int k \<le> real_of_int ?c" by (rule le_of_int_ceiling)
  then have "real_of_int T \<le> real_of_int ?c * real_of_int k"
    using kpos by (simp only: pos_divide_le_eq)
  then have "real_of_int T \<le> real_of_int (k * ?c)" by (simp add: mult.commute)
  then show "T \<le> k * ?c" by linarith
  have "real_of_int ?c < real_of_int T / real_of_int k + 1" by linarith
  then have "real_of_int ?c * real_of_int k < (real_of_int T / real_of_int k + 1) * real_of_int k"
    using kpos by (simp only: mult_less_cancel_right_pos)
  also have "\<dots> = real_of_int T + real_of_int k" using kpos by (simp add: field_simps)
  finally have "real_of_int (k * ?c) < real_of_int (T + k)" by (simp add: mult.commute)
  then show "k * ?c < T + k" by linarith
qed

lemma ceiling_quotient_exact:
  fixes T k :: int
  assumes "0 < k"
  shows "k * \<lceil>real_of_int T / real_of_int k\<rceil> = T \<longleftrightarrow> k dvd T"
proof
  assume "k * \<lceil>real_of_int T / real_of_int k\<rceil> = T"
  then show "k dvd T" by (metis dvd_triv_left)
next
  assume "k dvd T"
  then obtain q where q: "T = k * q" ..
  have "real_of_int T / real_of_int k = real_of_int q" using assms q by simp
  then show "k * \<lceil>real_of_int T / real_of_int k\<rceil> = T" using q by simp
qed

lemma prefix_offsets_replicate:
  "prefix_offsets acc (replicate n c) = map (\<lambda>i. acc + int i * c) [0..<n]"
proof (induction n arbitrary: acc)
  case 0
  show ?case by simp
next
  case (Suc n)
  have "map (\<lambda>i. acc + int i * c) [0..<Suc n] = acc # map (\<lambda>i. acc + int (Suc i) * c) [0..<n]"
    by (simp only: upt_conv_Cons [of 0 "Suc n"] map_Suc_upt [symmetric] list.map map_map o_def) simp
  also have "\<dots> = acc # map (\<lambda>i. (acc + c) + int i * c) [0..<n]"
    by (simp add: algebra_simps)
  finally show ?case using Suc.IH [of "acc + c"] by simp
qed

lemma manager_of_replicate:
  "buffers (ReplayBufferManager_init (replicate n b)) = replicate n b"
  "offset (ReplayBufferManager_init (replicate n b)) = map (\<lambda>i. int i * maxsize b) [0..<n]"
  "total_capacity (ReplayBufferManager_init (replicate n b)) = int n * maxsize b"
  by (simp_all add: ReplayBufferManager_init_def prefix_offsets_replicate sum_list_replicate)

lemma VectorReplayBuffer_init_Inr:
  assumes "0 < k" and "sub_buffer_size T k = Inr c" and "ReplayBuffer_init valid c kw = Inr b"
  shows "VectorReplayBuffer_init valid T k kw = Inr (ReplayBufferManager_init (replicate (nat k) b))"
  using assms by (simp add: VectorReplayBuffer_init_def list_comprehension_const)

lemma PrioritizedVectorReplayBuffer_init_Inr:
  assumes "0 < k" and "sub_buffer_size T k = Inr c" and "PrioritizedReplayBuffer_init valid c kw = Inr b"
  shows "PrioritizedVectorReplayBuffer_init valid T k kw = Inr (ReplayBufferManager_init (replicate (nat k) b))"
  using assms by (simp add: PrioritizedVectorReplayBuffer_init_def list_comprehension_const)

lemma HERVectorReplayBuffer_init_Inr:
  assumes "0 < k" and "sub_buffer_size T k = Inr c" and "HERReplayBuffer_init valid c kw = Inr b"
  shows "HERVectorReplayBuffer_init valid T k kw = Inr (ReplayBufferManager_init (replicate (nat k) b))"
  using assms by (simp add: HERVectorReplayBuffer_init_def list_comprehension_const)

lemma ReplayBuffer_init_Inr:
  "valid n kw \<Longrightarrow> \<exists>b. ReplayBuffer_init valid n kw = Inr b \<and> maxsize b = n \<and> options b = kw"
  by (simp add: ReplayBuffer_init_def)

lemma PrioritizedReplayBuffer_init_Inr:
  "valid n kw \<Longrightarrow> \<exists>b. PrioritizedReplayBuffer_init valid n kw = Inr b \<and> maxsize b = n \<and> options b = kw"
  by (simp add: PrioritizedReplayBuffer_init_def)

lemma HERReplayBuffer_init_Inr:
  "valid n kw \<Longrightarrow> \<exists>b. HERReplayBuffer_init valid n kw = Inr b \<and> maxsize b = n \<and> options b = kw"
  by (simp add: HERReplayBuffer_init_def ReplayBuffer_init_def)

text \<open>
  Beyond the integers that a double holds the quotient is rounded: \<open>2 ^ 53 + 1\<close> is not a
  double, and neither is its half.
\<close>

lemma sub_buffer_size_beyond_doubles:
  "sub_buffer_size 9007199254740993 1 = Inr 9007199254740992"
  "sub_buffer_size 9007199254740993 2 = Inr 4503599627370496"
  by (simp_all add: sub_buffer_size_def int_truediv_def round_double_def exponent_def
      expo_up.simps round_even_def overflows_def Let_def)

text \<open>
  A total size of \<open>2 ^ 1024\<close> or more has no float quotient by 1: the division raises
  \<^verbatim>\<open>OverflowError\<close> and no sub-buffer is constructed.
\<close>

lemma vector_init_overflow:
  assumes "2 ^ 1024 \<le> \<bar>total_size\<bar>"
  shows "VectorReplayBuffer_init valid total_size 1 kwargs = Inl OverflowError"
    and "PrioritizedVectorReplayBuffer_init pvalid total_size 1 pkwargs = Inl OverflowError"
    and "HERVectorReplayBuffer_init hvalid total_size 1 hkwargs = Inl OverflowError"
  by (simp_all add: VectorReplayBuffer_init_def PrioritizedVectorReplayBuffer_init_def
      HERVectorReplayBuffer_init_def sub_buffer_size_overflow [OF assms])

subsection \<open>A buffer count that is not positive\<close>

text \<open>
  Claim C7. For every \<open>buffer_num \<le> 0\<close>, each of the three constructors fails at the call:
  the assertion \<^verbatim>\<open>assert buffer_num > 0\<close> is the first statement, so the error is raised
  before the size is computed and before any sub-buffer is constructed, whatever the total
  size, the keyword arguments and the sub-buffer constructor are. The failed assertion is
  the configuration error of the spec for a non-positive buffer count.
\<close>

theorem vector_init_rejects_nonpositive_buffer_num:
  assumes "buffer_num \<le> 0"
  shows "VectorReplayBuffer_init valid total_size buffer_num kwargs = Inl AssertionError
       \<and> PrioritizedVectorReplayBuffer_init pvalid total_size buffer_num pkwargs = Inl AssertionError
       \<and> HERVectorReplayBuffer_init hvalid total_size buffer_num hkwargs = Inl AssertionError"
  using assms
  by (simp add: VectorReplayBuffer_init_def PrioritizedVectorReplayBuffer_init_def
      HERVectorReplayBuffer_init_def)

theorem vector_init_rejects_nonpositive_buffer_num_witness:
  "(- 2 :: int) \<le> 0
   \<and> (VectorReplayBuffer_init positive_capacity 10 (- 2) ()
         :: error + (unit, nat) ReplayBuffer ReplayBufferManager) = Inl AssertionError
   \<and> (PrioritizedVectorReplayBuffer_init positive_capacity 10 (- 2)
          \<lparr>opt_alpha = 1 / 2, opt_beta = 2 / 5, opt_weight_norm = True\<rparr>
         :: error + (prio_options, nat) PrioritizedReplayBuffer ReplayBufferManager)
       = Inl AssertionError
   \<and> (HERVectorReplayBuffer_init positive_capacity 10 (- 2) ()
         :: error + (unit, nat) ReplayBuffer ReplayBufferManager) = Inl AssertionError"
proof -
  have h: "(- 2 :: int) \<le> 0" by simp
  show ?thesis
    using h vector_init_rejects_nonpositive_buffer_num [OF h] by simp
qed

subsection \<open>Equal capacities\<close>

lemma many_equal_buffers:
  fixes T k :: int
  assumes k: "0 < k" and m: "m = ReplayBufferManager_init (replicate (nat k) b)"
    and b: "maxsize b = \<lceil>real_of_int T / real_of_int k\<rceil>"
  shows "length (buffers m) = nat k"
    and "buffers m = replicate (nat k) b"
    and "total_capacity m = k * \<lceil>real_of_int T / real_of_int k\<rceil>"
    and "\<not> k dvd T \<Longrightarrow> T < total_capacity m"
proof -
  show "buffers m = replicate (nat k) b" by (simp add: m manager_of_replicate)
  then show "length (buffers m) = nat k" by simp
  show tc: "total_capacity m = k * \<lceil>real_of_int T / real_of_int k\<rceil>"
    using k by (simp add: m manager_of_replicate b)
  assume "\<not> k dvd T"
  then have "k * \<lceil>real_of_int T / real_of_int k\<rceil> \<noteq> T"
    using ceiling_quotient_exact [OF k, of T] by simp
  then show "T < total_capacity m"
    using ceiling_quotient_bounds(1) [OF k, of T] tc by linarith
qed



lemma plain_equal_buffers:
  fixes total_size buffer_num :: int
  assumes k: "0 < buffer_num" and kb: "buffer_num < 2 ^ 53" and Tb: "\<bar>total_size\<bar> < 2 ^ 53"
    and v: "valid \<lceil>real_of_int total_size / real_of_int buffer_num\<rceil> kwargs"
  shows "\<exists>(m :: ('kw, 'o) ReplayBuffer ReplayBufferManager) b.
              VectorReplayBuffer_init valid total_size buffer_num kwargs = Inr m
            \<and> ReplayBuffer_init valid \<lceil>real_of_int total_size / real_of_int buffer_num\<rceil> kwargs = Inr b
            \<and> int (length (buffers m)) = buffer_num
            \<and> buffers m = replicate (nat buffer_num) b
            \<and> maxsize b = \<lceil>real_of_int total_size / real_of_int buffer_num\<rceil>
            \<and> options b = kwargs
            \<and> total_capacity m = buffer_num * \<lceil>real_of_int total_size / real_of_int buffer_num\<rceil>
            \<and> (\<not> buffer_num dvd total_size \<longrightarrow> total_size < total_capacity m)"
proof -
  let ?c = "\<lceil>real_of_int total_size / real_of_int buffer_num\<rceil>"
  from v obtain b :: "('kw, 'o) ReplayBuffer"
    where b: "ReplayBuffer_init valid ?c kwargs = Inr b" "maxsize b = ?c" "options b = kwargs"
    using ReplayBuffer_init_Inr [of valid ?c kwargs] by blast
  let ?m = "ReplayBufferManager_init (replicate (nat buffer_num) b)"
  have "VectorReplayBuffer_init valid total_size buffer_num kwargs = Inr ?m"
    by (rule VectorReplayBuffer_init_Inr [OF k sub_buffer_size_ceiling [OF k kb Tb] b(1)])
  moreover have "int (length (buffers ?m)) = buffer_num"
    using many_equal_buffers(1) [OF k refl b(2)] k by simp
  ultimately show ?thesis
    using b many_equal_buffers(2-4) [OF k refl b(2)] by blast
qed

lemma prioritized_equal_buffers:
  fixes total_size buffer_num :: int
  assumes k: "0 < buffer_num" and kb: "buffer_num < 2 ^ 53" and Tb: "\<bar>total_size\<bar> < 2 ^ 53"
    and v: "pvalid \<lceil>real_of_int total_size / real_of_int buffer_num\<rceil> pkwargs"
  shows "\<exists>(m :: ('z prio_options_scheme, 'o) PrioritizedReplayBuffer ReplayBufferManager) b.
              PrioritizedVectorReplayBuffer_init pvalid total_size buffer_num pkwargs = Inr m
            \<and> PrioritizedReplayBuffer_init pvalid \<lceil>real_of_int total_size / real_of_int buffer_num\<rceil> pkwargs = Inr b
            \<and> int (length (buffers m)) = buffer_num
            \<and> buffers m = replicate (nat buffer_num) b
            \<and> maxsize b = \<lceil>real_of_int total_size / real_of_int buffer_num\<rceil>
            \<and> options b = pkwargs
            \<and> total_capacity m = buffer_num * \<lceil>real_of_int total_size / real_of_int buffer_num\<rceil>
            \<and> (\<not> buffer_num dvd total_size \<longrightarrow> total_size < total_capacity m)"
proof -
  let ?c = "\<lceil>real_of_int total_size / real_of_int buffer_num\<rceil>"
  from v obtain b :: "('z prio_options_scheme, 'o) PrioritizedReplayBuffer"
    where b: "PrioritizedReplayBuffer_init pvalid ?c pkwargs = Inr b" "maxsize b = ?c" "options b = pkwargs"
    using PrioritizedReplayBuffer_init_Inr [of pvalid ?c pkwargs] by blast
  let ?m = "ReplayBufferManager_init (replicate (nat buffer_num) b)"
  have "PrioritizedVectorReplayBuffer_init pvalid total_size buffer_num pkwargs = Inr ?m"
    by (rule PrioritizedVectorReplayBuffer_init_Inr [OF k sub_buffer_size_ceiling [OF k kb Tb] b(1)])
  moreover have "int (length (buffers ?m)) = buffer_num"
    using many_equal_buffers(1) [OF k refl b(2)] k by simp
  ultimately show ?thesis
    using b many_equal_buffers(2-4) [OF k refl b(2)] by blast
qed

lemma hindsight_equal_buffers:
  fixes total_size buffer_num :: int
  assumes k: "0 < buffer_num" and kb: "buffer_num < 2 ^ 53" and Tb: "\<bar>total_size\<bar> < 2 ^ 53"
    and v: "hvalid \<lceil>real_of_int total_size / real_of_int buffer_num\<rceil> hkwargs"
  shows "\<exists>(m :: ('kw, 'o) ReplayBuffer ReplayBufferManager) b.
              HERVectorReplayBuffer_init hvalid total_size buffer_num hkwargs = Inr m
            \<and> HERReplayBuffer_init hvalid \<lceil>real_of_int total_size / real_of_int buffer_num\<rceil> hkwargs = Inr b
            \<and> int (length (buffers m)) = buffer_num
            \<and> buffers m = replicate (nat buffer_num) b
            \<and> maxsize b = \<lceil>real_of_int total_size / real_of_int buffer_num\<rceil>
            \<and> options b = hkwargs
            \<and> total_capacity m = buffer_num * \<lceil>real_of_int total_size / real_of_int buffer_num\<rceil>
            \<and> (\<not> buffer_num dvd total_size \<longrightarrow> total_size < total_capacity m)"
proof -
  let ?c = "\<lceil>real_of_int total_size / real_of_int buffer_num\<rceil>"
  from v obtain b :: "('kw, 'o) ReplayBuffer"
    where b: "HERReplayBuffer_init hvalid ?c hkwargs = Inr b" "maxsize b = ?c" "options b = hkwargs"
    using HERReplayBuffer_init_Inr [of hvalid ?c hkwargs] by blast
  let ?m = "ReplayBufferManager_init (replicate (nat buffer_num) b)"
  have "HERVectorReplayBuffer_init hvalid total_size buffer_num hkwargs = Inr ?m"
    by (rule HERVectorReplayBuffer_init_Inr [OF k sub_buffer_size_ceiling [OF k kb Tb] b(1)])
  moreover have "int (length (buffers ?m)) = buffer_num"
    using many_equal_buffers(1) [OF k refl b(2)] k by simp
  ultimately show ?thesis
    using b many_equal_buffers(2-4) [OF k refl b(2)] by blast
qed

text \<open>
  Claim C6, as amended. For every total size \<open>T\<close> below \<open>2 ^ 53\<close> in absolute value and
  every buffer count \<open>k\<close> with \<open>0 < k < 2 ^ 53\<close> whose sub-buffer configuration is
  accepted, each of the three constructors returns a manager of exactly \<open>k\<close> sub-buffers,
  all equal to the one buffer that the sub-buffer constructor builds from the capacity
  \<open>\<lceil>T / k\<rceil>\<close> and the given keyword arguments; the combined capacity is \<open>k * \<lceil>T / k\<rceil>\<close>,
  which is above \<open>T\<close> whenever \<open>k\<close> does not divide \<open>T\<close>. In that range the rounding of
  the float quotient \<^verbatim>\<open>total_size / buffer_num\<close> does not change its ceiling.
\<close>

theorem vector_buffers_share_ceiling_capacity:
  fixes total_size buffer_num :: int
  assumes "0 < buffer_num" and "buffer_num < 2 ^ 53" and "\<bar>total_size\<bar> < 2 ^ 53"
    and "valid \<lceil>real_of_int total_size / real_of_int buffer_num\<rceil> kwargs"
    and "pvalid \<lceil>real_of_int total_size / real_of_int buffer_num\<rceil> pkwargs"
    and "hvalid \<lceil>real_of_int total_size / real_of_int buffer_num\<rceil> hkwargs"
  shows "(\<exists>m b. VectorReplayBuffer_init valid total_size buffer_num kwargs = Inr m
            \<and> ReplayBuffer_init valid \<lceil>real_of_int total_size / real_of_int buffer_num\<rceil> kwargs = Inr b
            \<and> int (length (buffers m)) = buffer_num
            \<and> buffers m = replicate (nat buffer_num) b
            \<and> maxsize b = \<lceil>real_of_int total_size / real_of_int buffer_num\<rceil>
            \<and> options b = kwargs
            \<and> total_capacity m = buffer_num * \<lceil>real_of_int total_size / real_of_int buffer_num\<rceil>
            \<and> (\<not> buffer_num dvd total_size \<longrightarrow> total_size < total_capacity m))
       \<and> (\<exists>m b. PrioritizedVectorReplayBuffer_init pvalid total_size buffer_num pkwargs = Inr m
            \<and> PrioritizedReplayBuffer_init pvalid \<lceil>real_of_int total_size / real_of_int buffer_num\<rceil> pkwargs = Inr b
            \<and> int (length (buffers m)) = buffer_num
            \<and> buffers m = replicate (nat buffer_num) b
            \<and> maxsize b = \<lceil>real_of_int total_size / real_of_int buffer_num\<rceil>
            \<and> options b = pkwargs
            \<and> total_capacity m = buffer_num * \<lceil>real_of_int total_size / real_of_int buffer_num\<rceil>
            \<and> (\<not> buffer_num dvd total_size \<longrightarrow> total_size < total_capacity m))
       \<and> (\<exists>m b. HERVectorReplayBuffer_init hvalid total_size buffer_num hkwargs = Inr m
            \<and> HERReplayBuffer_init hvalid \<lceil>real_of_int total_size / real_of_int buffer_num\<rceil> hkwargs = Inr b
            \<and> int (length (buffers m)) = buffer_num
            \<and> buffers m = replicate (nat buffer_num) b
            \<and> maxsize b = \<lceil>real_of_int total_size / real_of_int buffer_num\<rceil>
            \<and> options b = hkwargs
            \<and> total_capacity m = buffer_num * \<lceil>real_of_int total_size / real_of_int buffer_num\<rceil>
            \<and> (\<not> buffer_num dvd total_size \<longrightarrow> total_size < total_capacity m))"
  using plain_equal_buffers [where valid = valid and kwargs = kwargs, OF assms(1) assms(2) assms(3) assms(4)]
    prioritized_equal_buffers [where pvalid = pvalid and pkwargs = pkwargs, OF assms(1) assms(2) assms(3) assms(5)]
    hindsight_equal_buffers [where hvalid = hvalid and hkwargs = hkwargs, OF assms(1) assms(2) assms(3) assms(6)]
  by (intro conjI)


theorem vector_buffers_share_ceiling_capacity_witness:
  "(0::int) < 3 \<and> (3::int) < 2 ^ 53 \<and> \<bar>10::int\<bar> < 2 ^ 53
   \<and> positive_capacity \<lceil>real_of_int 10 / real_of_int 3\<rceil> ()
   \<and> positive_capacity \<lceil>real_of_int 10 / real_of_int 3\<rceil>
        \<lparr>opt_alpha = 1 / 2, opt_beta = 2 / 5, opt_weight_norm = True\<rparr>
   \<and> \<not> (3::int) dvd 10
   \<and> (\<exists>(m :: (unit, nat) ReplayBuffer ReplayBufferManager) b.
          VectorReplayBuffer_init positive_capacity 10 3 () = Inr m
        \<and> buffers m = [b, b, b] \<and> maxsize b = 4 \<and> total_capacity m = 12 \<and> 10 < total_capacity m)
   \<and> (\<exists>(m :: (prio_options, nat) PrioritizedReplayBuffer ReplayBufferManager) b.
          PrioritizedVectorReplayBuffer_init positive_capacity 10 3
            \<lparr>opt_alpha = 1 / 2, opt_beta = 2 / 5, opt_weight_norm = True\<rparr> = Inr m
        \<and> buffers m = [b, b, b] \<and> maxsize b = 4 \<and> total_capacity m = 12 \<and> 10 < total_capacity m)
   \<and> (\<exists>(m :: (unit, nat) ReplayBuffer ReplayBufferManager) b.
          HERVectorReplayBuffer_init positive_capacity 10 3 () = Inr m
        \<and> buffers m = [b, b, b] \<and> maxsize b = 4 \<and> total_capacity m = 12 \<and> 10 < total_capacity m)"
proof -
  have c: "\<lceil>real_of_int 10 / real_of_int 3\<rceil> = 4" by simp
  have r: "replicate (nat 3) b = [b, b, b]" for b :: 'a by (simp add: numeral_3_eq_3)
  have h1: "(0::int) < 3" by simp
  have hk: "(3::int) < 2 ^ 53" by simp
  have hT: "\<bar>10::int\<bar> < 2 ^ 53" by simp
  have h2: "positive_capacity \<lceil>real_of_int 10 / real_of_int 3\<rceil> ()"
    by (simp add: positive_capacity_def)
  have h3: "positive_capacity \<lceil>real_of_int 10 / real_of_int 3\<rceil>
        \<lparr>opt_alpha = 1 / 2, opt_beta = 2 / 5, opt_weight_norm = True\<rparr>"
    by (simp add: positive_capacity_def)
  have h4: "\<not> (3::int) dvd 10" by simp
  show ?thesis
    using vector_buffers_share_ceiling_capacity [where buffer_num = 3 and total_size = 10
        and valid = positive_capacity and kwargs = "()"
        and pvalid = positive_capacity
        and pkwargs = "\<lparr>opt_alpha = 1 / 2, opt_beta = 2 / 5, opt_weight_norm = True\<rparr>"
        and hvalid = positive_capacity and hkwargs = "()", OF h1 hk hT h2 h3 h2] h1 hk hT h2 h3 h4
    unfolding c r by simp blast
qed

text \<open>
  Claim C6 as stated fails where the quotient is not a double: with total size
  \<open>2 ^ 53 + 1\<close> and 2 sub-buffers the float quotient is \<open>2 ^ 52\<close>, the tie
  \<open>2 ^ 52 + 1 / 2\<close> going to the even neighbour, so both sub-buffers have the capacity
  \<open>2 ^ 52\<close> and not \<open>\<lceil>T / k\<rceil> = 2 ^ 52 + 1\<close>, and the combined capacity \<open>2 ^ 53\<close> is below
  the total size although 2 does not divide it.
\<close>

theorem vector_buffers_rounded_quotient_counterexample:
  "\<lceil>real_of_int 9007199254740993 / real_of_int 2\<rceil> = (4503599627370497 :: int)
   \<and> \<not> (2 :: int) dvd 9007199254740993
   \<and> (VectorReplayBuffer_init positive_capacity 9007199254740993 2 ()
         :: error + (unit, nat) ReplayBuffer ReplayBufferManager)
       = Inr (ReplayBufferManager_init
                (replicate 2 (projr (ReplayBuffer_init positive_capacity 4503599627370496 ()))))
   \<and> map maxsize (buffers (projr (VectorReplayBuffer_init positive_capacity 9007199254740993 2 ()
         :: error + (unit, nat) ReplayBuffer ReplayBufferManager)))
       = [4503599627370496, 4503599627370496]
   \<and> total_capacity (projr (VectorReplayBuffer_init positive_capacity 9007199254740993 2 ()
         :: error + (unit, nat) ReplayBuffer ReplayBufferManager)) = 9007199254740992
   \<and> total_capacity (projr (VectorReplayBuffer_init positive_capacity 9007199254740993 2 ()
         :: error + (unit, nat) ReplayBuffer ReplayBufferManager)) < 9007199254740993"
proof -
  obtain b :: "(unit, nat) ReplayBuffer"
    where b: "ReplayBuffer_init positive_capacity 4503599627370496 () = Inr b"
      "maxsize b = 4503599627370496"
    using ReplayBuffer_init_Inr [of positive_capacity 4503599627370496 "()"]
    by (auto simp add: positive_capacity_def)
  have v: "VectorReplayBuffer_init positive_capacity 9007199254740993 2 ()
      = Inr (ReplayBufferManager_init (replicate (nat 2) b))"
    by (rule VectorReplayBuffer_init_Inr [OF _ sub_buffer_size_beyond_doubles(2) b(1)]) simp
  have c: "\<lceil>real_of_int 9007199254740993 / real_of_int 2\<rceil> = (4503599627370497 :: int)"
    by (rule ceiling_unique) simp_all
  have d: "\<not> (2 :: int) dvd 9007199254740993" by simp
  have r: "replicate (nat 2) b = [b, b]" by (simp add: numeral_2_eq_2)
  have r': "replicate 2 b = [b, b]" by (simp add: numeral_2_eq_2)
  show ?thesis
    unfolding v b(1) sum.sel r r'
    using c d by (simp add: ReplayBufferManager_init_def b(2))
qed



subsection \<open>The sum of the capacities\<close>

lemma capacities_of_equal_buffers:
  fixes T k :: int
  assumes k: "0 < k" and m: "m = ReplayBufferManager_init (replicate (nat k) b)"
    and b: "maxsize b = \<lceil>real_of_int T / real_of_int k\<rceil>"
  shows "map maxsize (buffers m) = replicate (nat k) \<lceil>real_of_int T / real_of_int k\<rceil>"
    and "offset m = map (\<lambda>i. int i * \<lceil>real_of_int T / real_of_int k\<rceil>) [0..<nat k]"
    and "total_capacity m = sum_list (map maxsize (buffers m))"
    and "T \<le> total_capacity m"
    and "total_capacity m < T + k"
    and "total_capacity m = T \<longleftrightarrow> k dvd T"
proof -
  let ?c = "\<lceil>real_of_int T / real_of_int k\<rceil>"
  show "map maxsize (buffers m) = replicate (nat k) ?c"
    by (simp add: m manager_of_replicate b)
  show "offset m = map (\<lambda>i. int i * ?c) [0..<nat k]"
    by (simp add: m manager_of_replicate b)
  show "total_capacity m = sum_list (map maxsize (buffers m))"
    by (simp add: m ReplayBufferManager_init_def)
  have tc: "total_capacity m = k * ?c"
    using k by (simp add: m manager_of_replicate b)
  show "T \<le> total_capacity m"
    using ceiling_quotient_bounds(1) [OF k, of T] tc by simp
  show "total_capacity m < T + k"
    using ceiling_quotient_bounds(2) [OF k, of T] tc by simp
  show "total_capacity m = T \<longleftrightarrow> k dvd T"
    using ceiling_quotient_exact [OF k, of T] tc by simp
qed

lemma plain_capacities:
  fixes total_size buffer_num :: int
  assumes k: "0 < buffer_num" and kb: "buffer_num < 2 ^ 53" and Tb: "\<bar>total_size\<bar> < 2 ^ 53"
    and v: "valid \<lceil>real_of_int total_size / real_of_int buffer_num\<rceil> kwargs"
  shows "\<exists>m :: ('kw, 'o) ReplayBuffer ReplayBufferManager.
              VectorReplayBuffer_init valid total_size buffer_num kwargs = Inr m
            \<and> map maxsize (buffers m)
                = replicate (nat buffer_num) \<lceil>real_of_int total_size / real_of_int buffer_num\<rceil>
            \<and> offset m
                = map (\<lambda>i. int i * \<lceil>real_of_int total_size / real_of_int buffer_num\<rceil>)
                    [0..<nat buffer_num]
            \<and> total_capacity m = sum_list (map maxsize (buffers m))
            \<and> total_size \<le> total_capacity m
            \<and> total_capacity m < total_size + buffer_num
            \<and> (total_capacity m = total_size \<longleftrightarrow> buffer_num dvd total_size)"
proof -
  let ?c = "\<lceil>real_of_int total_size / real_of_int buffer_num\<rceil>"
  from v obtain b :: "('kw, 'o) ReplayBuffer"
    where b: "ReplayBuffer_init valid ?c kwargs = Inr b" "maxsize b = ?c"
    using ReplayBuffer_init_Inr [of valid ?c kwargs] by blast
  let ?m = "ReplayBufferManager_init (replicate (nat buffer_num) b)"
  have "VectorReplayBuffer_init valid total_size buffer_num kwargs = Inr ?m"
    by (rule VectorReplayBuffer_init_Inr [OF k sub_buffer_size_ceiling [OF k kb Tb] b(1)])
  then show ?thesis
    using capacities_of_equal_buffers [OF k refl b(2)] by blast
qed

lemma prioritized_capacities:
  fixes total_size buffer_num :: int
  assumes k: "0 < buffer_num" and kb: "buffer_num < 2 ^ 53" and Tb: "\<bar>total_size\<bar> < 2 ^ 53"
    and v: "pvalid \<lceil>real_of_int total_size / real_of_int buffer_num\<rceil> pkwargs"
  shows "\<exists>m :: ('z prio_options_scheme, 'o) PrioritizedReplayBuffer ReplayBufferManager.
              PrioritizedVectorReplayBuffer_init pvalid total_size buffer_num pkwargs = Inr m
            \<and> map maxsize (buffers m)
                = replicate (nat buffer_num) \<lceil>real_of_int total_size / real_of_int buffer_num\<rceil>
            \<and> offset m
                = map (\<lambda>i. int i * \<lceil>real_of_int total_size / real_of_int buffer_num\<rceil>)
                    [0..<nat buffer_num]
            \<and> total_capacity m = sum_list (map maxsize (buffers m))
            \<and> total_size \<le> total_capacity m
            \<and> total_capacity m < total_size + buffer_num
            \<and> (total_capacity m = total_size \<longleftrightarrow> buffer_num dvd total_size)"
proof -
  let ?c = "\<lceil>real_of_int total_size / real_of_int buffer_num\<rceil>"
  from v obtain b :: "('z prio_options_scheme, 'o) PrioritizedReplayBuffer"
    where b: "PrioritizedReplayBuffer_init pvalid ?c pkwargs = Inr b" "maxsize b = ?c"
    using PrioritizedReplayBuffer_init_Inr [of pvalid ?c pkwargs] by blast
  let ?m = "ReplayBufferManager_init (replicate (nat buffer_num) b)"
  have "PrioritizedVectorReplayBuffer_init pvalid total_size buffer_num pkwargs = Inr ?m"
    by (rule PrioritizedVectorReplayBuffer_init_Inr [OF k sub_buffer_size_ceiling [OF k kb Tb] b(1)])
  then show ?thesis
    using capacities_of_equal_buffers [OF k refl b(2)] by blast
qed

lemma hindsight_capacities:
  fixes total_size buffer_num :: int
  assumes k: "0 < buffer_num" and kb: "buffer_num < 2 ^ 53" and Tb: "\<bar>total_size\<bar> < 2 ^ 53"
    and v: "hvalid \<lceil>real_of_int total_size / real_of_int buffer_num\<rceil> hkwargs"
  shows "\<exists>m :: ('kw, 'o) ReplayBuffer ReplayBufferManager.
              HERVectorReplayBuffer_init hvalid total_size buffer_num hkwargs = Inr m
            \<and> map maxsize (buffers m)
                = replicate (nat buffer_num) \<lceil>real_of_int total_size / real_of_int buffer_num\<rceil>
            \<and> offset m
                = map (\<lambda>i. int i * \<lceil>real_of_int total_size / real_of_int buffer_num\<rceil>)
                    [0..<nat buffer_num]
            \<and> total_capacity m = sum_list (map maxsize (buffers m))
            \<and> total_size \<le> total_capacity m
            \<and> total_capacity m < total_size + buffer_num
            \<and> (total_capacity m = total_size \<longleftrightarrow> buffer_num dvd total_size)"
proof -
  let ?c = "\<lceil>real_of_int total_size / real_of_int buffer_num\<rceil>"
  from v obtain b :: "('kw, 'o) ReplayBuffer"
    where b: "HERReplayBuffer_init hvalid ?c hkwargs = Inr b" "maxsize b = ?c"
    using HERReplayBuffer_init_Inr [of hvalid ?c hkwargs] by blast
  let ?m = "ReplayBufferManager_init (replicate (nat buffer_num) b)"
  have "HERVectorReplayBuffer_init hvalid total_size buffer_num hkwargs = Inr ?m"
    by (rule HERVectorReplayBuffer_init_Inr [OF k sub_buffer_size_ceiling [OF k kb Tb] b(1)])
  then show ?thesis
    using capacities_of_equal_buffers [OF k refl b(2)] by blast
qed

text \<open>
  Claim C1, as amended. The constructors do not distribute a remainder: with a total size
  \<open>T\<close> below \<open>2 ^ 53\<close> in absolute value and \<open>0 < k < 2 ^ 53\<close> sub-buffers of an accepted
  configuration, every sub-buffer has the capacity \<open>\<lceil>T / k\<rceil>\<close>, the offsets are the
  multiples of that capacity, and the size of the global index space is the sum of the
  capacities, which lies in \<open>[T, T + k)\<close> and is \<open>T\<close> exactly when \<open>k\<close> divides \<open>T\<close>.
\<close>

theorem vector_capacities_sum_to_rounded_total:
  fixes total_size buffer_num :: int
  assumes "0 < buffer_num" and "buffer_num < 2 ^ 53" and "\<bar>total_size\<bar> < 2 ^ 53"
    and "valid \<lceil>real_of_int total_size / real_of_int buffer_num\<rceil> kwargs"
    and "pvalid \<lceil>real_of_int total_size / real_of_int buffer_num\<rceil> pkwargs"
    and "hvalid \<lceil>real_of_int total_size / real_of_int buffer_num\<rceil> hkwargs"
  shows "(\<exists>m. VectorReplayBuffer_init valid total_size buffer_num kwargs = Inr m
            \<and> map maxsize (buffers m)
                = replicate (nat buffer_num) \<lceil>real_of_int total_size / real_of_int buffer_num\<rceil>
            \<and> offset m
                = map (\<lambda>i. int i * \<lceil>real_of_int total_size / real_of_int buffer_num\<rceil>)
                    [0..<nat buffer_num]
            \<and> total_capacity m = sum_list (map maxsize (buffers m))
            \<and> total_size \<le> total_capacity m
            \<and> total_capacity m < total_size + buffer_num
            \<and> (total_capacity m = total_size \<longleftrightarrow> buffer_num dvd total_size))
       \<and> (\<exists>m. PrioritizedVectorReplayBuffer_init pvalid total_size buffer_num pkwargs = Inr m
            \<and> map maxsize (buffers m)
                = replicate (nat buffer_num) \<lceil>real_of_int total_size / real_of_int buffer_num\<rceil>
            \<and> offset m
                = map (\<lambda>i. int i * \<lceil>real_of_int total_size / real_of_int buffer_num\<rceil>)
                    [0..<nat buffer_num]
            \<and> total_capacity m = sum_list (map maxsize (buffers m))
            \<and> total_size \<le> total_capacity m
            \<and> total_capacity m < total_size + buffer_num
            \<and> (total_capacity m = total_size \<longleftrightarrow> buffer_num dvd total_size))
       \<and> (\<exists>m. HERVectorReplayBuffer_init hvalid total_size buffer_num hkwargs = Inr m
            \<and> map maxsize (buffers m)
                = replicate (nat buffer_num) \<lceil>real_of_int total_size / real_of_int buffer_num\<rceil>
            \<and> offset m
                = map (\<lambda>i. int i * \<lceil>real_of_int total_size / real_of_int buffer_num\<rceil>)
                    [0..<nat buffer_num]
            \<and> total_capacity m = sum_list (map maxsize (buffers m))
            \<and> total_size \<le> total_capacity m
            \<and> total_capacity m < total_size + buffer_num
            \<and> (total_capacity m = total_size \<longleftrightarrow> buffer_num dvd total_size))"
  using plain_capacities [where valid = valid and kwargs = kwargs, OF assms(1) assms(2) assms(3) assms(4)]
    prioritized_capacities [where pvalid = pvalid and pkwargs = pkwargs, OF assms(1) assms(2) assms(3) assms(5)]
    hindsight_capacities [where hvalid = hvalid and hkwargs = hkwargs, OF assms(1) assms(2) assms(3) assms(6)]
  by (intro conjI)

theorem vector_capacities_sum_to_rounded_total_witness:
  "(0::int) < 3 \<and> (3::int) < 2 ^ 53 \<and> \<bar>10::int\<bar> < 2 ^ 53
   \<and> positive_capacity \<lceil>real_of_int 10 / real_of_int 3\<rceil> ()
   \<and> positive_capacity \<lceil>real_of_int 10 / real_of_int 3\<rceil>
        \<lparr>opt_alpha = 1 / 2, opt_beta = 2 / 5, opt_weight_norm = True\<rparr>
   \<and> (\<exists>m :: (unit, nat) ReplayBuffer ReplayBufferManager.
          VectorReplayBuffer_init positive_capacity 10 3 () = Inr m
        \<and> map maxsize (buffers m) = [4, 4, 4] \<and> offset m = [0, 4, 8]
        \<and> total_capacity m = 12)
   \<and> (\<exists>m :: (prio_options, nat) PrioritizedReplayBuffer ReplayBufferManager.
          PrioritizedVectorReplayBuffer_init positive_capacity 10 3
            \<lparr>opt_alpha = 1 / 2, opt_beta = 2 / 5, opt_weight_norm = True\<rparr> = Inr m
        \<and> map maxsize (buffers m) = [4, 4, 4] \<and> offset m = [0, 4, 8]
        \<and> total_capacity m = 12)
   \<and> (\<exists>m :: (unit, nat) ReplayBuffer ReplayBufferManager.
          HERVectorReplayBuffer_init positive_capacity 10 3 () = Inr m
        \<and> map maxsize (buffers m) = [4, 4, 4] \<and> offset m = [0, 4, 8]
        \<and> total_capacity m = 12)"
proof -
  have c: "\<lceil>real_of_int 10 / real_of_int 3\<rceil> = 4" by simp
  have r: "replicate (nat 3) b = [b, b, b]" for b :: 'a by (simp add: numeral_3_eq_3)
  have u: "[0..<nat 3] = [0, 1, 2]" by (simp add: numeral_3_eq_3 upt_rec)
  have h1: "(0::int) < 3" by simp
  have hk: "(3::int) < 2 ^ 53" by simp
  have hT: "\<bar>10::int\<bar> < 2 ^ 53" by simp
  have h2: "positive_capacity \<lceil>real_of_int 10 / real_of_int 3\<rceil> ()"
    by (simp add: positive_capacity_def)
  have h3: "positive_capacity \<lceil>real_of_int 10 / real_of_int 3\<rceil>
        \<lparr>opt_alpha = 1 / 2, opt_beta = 2 / 5, opt_weight_norm = True\<rparr>"
    by (simp add: positive_capacity_def)
  show ?thesis
    using vector_capacities_sum_to_rounded_total [where buffer_num = 3 and total_size = 10
        and valid = positive_capacity and kwargs = "()"
        and pvalid = positive_capacity
        and pkwargs = "\<lparr>opt_alpha = 1 / 2, opt_beta = 2 / 5, opt_weight_norm = True\<rparr>"
        and hvalid = positive_capacity and hkwargs = "()", OF h1 hk hT h2 h3 h2] h1 hk hT h2 h3
    unfolding c r u by simp force
qed

text \<open>
  Claim C1 as stated fails: total size 10 and 3 sub-buffers give the capacities 4, 4, 4 and
  a global index space of size 12, not 4, 3, 3 and 10.
\<close>

theorem vector_capacities_10_3_counterexample:
  "(VectorReplayBuffer_init positive_capacity 10 3 ()
      :: error + (unit, nat) ReplayBuffer ReplayBufferManager)
   = Inr \<lparr>buffers = replicate 3 \<lparr>maxsize = 4, options = (), slots = replicate 4 None,
                                  cur_size = 0, cursor = 0, ep_rew = 0, ep_len = 0\<rparr>,
           offset = [0, 4, 8], total_capacity = 12\<rparr>
   \<and> map maxsize (buffers (projr (VectorReplayBuffer_init positive_capacity 10 3 ()
      :: error + (unit, nat) ReplayBuffer ReplayBufferManager))) = [4, 4, 4]
   \<and> map maxsize (buffers (projr (VectorReplayBuffer_init positive_capacity 10 3 ()
      :: error + (unit, nat) ReplayBuffer ReplayBufferManager))) \<noteq> [4, 3, 3]
   \<and> total_capacity (projr (VectorReplayBuffer_init positive_capacity 10 3 ()
      :: error + (unit, nat) ReplayBuffer ReplayBufferManager)) \<noteq> 10"
proof -
  have s: "sub_buffer_size 10 3 = Inr 4" using sub_buffer_size_ceiling [of 3 10] by simp
  show ?thesis
    by (simp add: VectorReplayBuffer_init_def s ReplayBuffer_init_def positive_capacity_def
        ReplayBufferManager_init_def numeral_3_eq_3 upt_rec)
qed

section \<open>The annealing of the importance-sampling exponent\<close>

lemma set_beta_args_append: "set_beta_args (xs @ ys) = set_beta_args xs @ set_beta_args ys"
  by (induction xs rule: set_beta_args.induct) simp_all

lemma train_eps_Inr:
  assumes "0 \<le> env_step"
  shows "\<exists>eps. train_eps cfg env_step = Inr eps"
proof (cases "env_step \<le> 1000000")
  case True
  then have "\<bar>env_step\<bar> < 2 ^ 53" using assms by simp
  then have "float_of_int env_step = Inr (Finite (real_of_int env_step))"
    by (rule float_of_int_small)
  then show ?thesis using True by (simp add: train_eps_def float_truediv_def)
next
  case False
  then show ?thesis by (simp add: train_eps_def)
qed

lemma train_beta_Inr:
  assumes "0 < beta_anneal_step cfg" and "0 \<le> env_step"
  shows "train_beta cfg env_step =
          Inr (if env_step \<le> beta_anneal_step cfg
               then float_sub (arg_beta cfg)
                      (float_mul
                         (Finite (round_double
                            (real_of_int env_step / real_of_int (beta_anneal_step cfg))))
                         (float_sub (arg_beta cfg) (beta_final cfg)))
               else beta_final cfg)"
proof (cases "env_step \<le> beta_anneal_step cfg")
  case True
  show ?thesis using True by (simp add: train_beta_def int_truediv_unit(1) [OF assms True])
next
  case False
  then show ?thesis by (simp add: train_beta_def)
qed

lemma train_fn_betas:
  assumes "\<not> no_priority cfg" and "0 < beta_anneal_step cfg" and "0 \<le> env_step"
  shows "snd (train_fn cfg epoch env_step) = None"
    and "set_beta_args (fst (train_fn cfg epoch env_step)) =
          [if env_step \<le> beta_anneal_step cfg
           then float_sub (arg_beta cfg)
                  (float_mul
                     (Finite (round_double
                        (real_of_int env_step / real_of_int (beta_anneal_step cfg))))
                     (float_sub (arg_beta cfg) (beta_final cfg)))
           else beta_final cfg]"
proof -
  obtain eps where eps: "train_eps cfg env_step = Inr eps"
    using train_eps_Inr [OF assms(3)] by blast
  note b = train_beta_Inr [OF assms(2) assms(3)]
  show "snd (train_fn cfg epoch env_step) = None"
    using assms(1) by (simp add: train_fn_def eps b Let_def)
  show "set_beta_args (fst (train_fn cfg epoch env_step)) =
          [if env_step \<le> beta_anneal_step cfg
           then float_sub (arg_beta cfg)
                  (float_mul
                     (Finite (round_double
                        (real_of_int env_step / real_of_int (beta_anneal_step cfg))))
                     (float_sub (arg_beta cfg) (beta_final cfg)))
           else beta_final cfg]"
    using assms(1) by (simp add: train_fn_def eps b Let_def set_beta_args_append)
qed

lemma anneal_start:
  assumes "is_double b0" and "is_double (float_sub b0 bf)"
  shows "float_sub b0 (float_mul (Finite 0) (float_sub b0 bf)) = b0"
proof -
  from assms(2) obtain a b where "float_sub b0 bf = Finite (round_double (a - b))"
    by (rule is_double_sub)
  then show ?thesis using assms(1) by (simp add: float_sub_zero)
qed

lemma anneal_mono:
  fixes A e e' :: int
  assumes le: "float_le b0 bf" and fin: "is_double (float_sub b0 bf)"
    and A: "0 < A" and e: "0 \<le> e" and ee: "e \<le> e'" and eA: "e' \<le> A"
  shows "float_le
           (float_sub b0 (float_mul (Finite (round_double (real_of_int e / real_of_int A)))
              (float_sub b0 bf)))
           (float_sub b0 (float_mul (Finite (round_double (real_of_int e' / real_of_int A)))
              (float_sub b0 bf)))"
proof -
  from fin obtain a b where ab: "b0 = Finite a" "bf = Finite b"
    and d: "float_sub b0 bf = Finite (round_double (a - b))"
    and dfin: "\<not> overflows (round_double (a - b))"
    by (rule is_double_sub)
  let ?d = "round_double (a - b)"
  let ?q = "round_double (real_of_int e / real_of_int A)"
  let ?q' = "round_double (real_of_int e' / real_of_int A)"
  have "a \<le> b" using le by (simp add: ab)
  then have "a - b \<le> 0" by simp
  then have "?d \<le> round_double 0" by (rule round_double_mono)
  then have d0: "?d \<le> 0" by simp
  have dd: "round_double ?d = ?d" by (rule round_double_idem [OF dfin])
  have "real_of_int e / real_of_int A \<le> real_of_int e' / real_of_int A"
    using ee A by (simp add: divide_right_mono)
  then have qq: "?q \<le> ?q'" by (rule round_double_mono)
  have e': "0 \<le> e'" using e ee by simp
  have eA': "e \<le> A" using ee eA by simp
  note u = int_truediv_unit(2,3) [OF A e eA']
  note u' = int_truediv_unit(2,3) [OF A e' eA]
  have prod: "\<not> overflows (round_double (q * ?d))" if "0 \<le> q" "q \<le> 1" for q
  proof -
    have "q * ?d \<le> 0" using that(1) d0 by (simp add: mult_nonneg_nonpos)
    then have "round_double (q * ?d) \<le> round_double 0" by (rule round_double_mono)
    then have up: "round_double (q * ?d) \<le> 0" by simp
    have "1 * ?d \<le> q * ?d" using that(2) d0 by (intro mult_right_mono_neg) simp_all
    then have "?d \<le> q * ?d" by simp
    then have "round_double ?d \<le> round_double (q * ?d)" by (rule round_double_mono)
    then have "?d \<le> round_double (q * ?d)" by (simp only: dd)
    then show ?thesis using up dfin d0 by (simp add: overflows_def)
  qed
  have "?q' * ?d \<le> ?q * ?d" using qq d0 by (rule mult_right_mono_neg)
  then have "round_double (?q' * ?d) \<le> round_double (?q * ?d)" by (rule round_double_mono)
  then have "a - round_double (?q * ?d) \<le> a - round_double (?q' * ?d)" by simp
  then have "float_le (float_of_real (a - round_double (?q * ?d)))
               (float_of_real (a - round_double (?q' * ?d)))"
    by (rule float_of_real_mono)
  then show ?thesis
    by (simp add: ab float_of_real_Finite [OF dfin] float_of_real_Finite [OF prod [OF u]]
        float_of_real_Finite [OF prod [OF u']])
qed

text \<open>
  Claim C9, as amended. With prioritized replay enabled, a positive
  \<^verbatim>\<open>beta_anneal_step\<close> and an \<^verbatim>\<open>env_step\<close> that is not negative, \<^verbatim>\<open>train_fn\<close> raises
  nothing and calls \<^verbatim>\<open>buffer.set_beta\<close> exactly once. While
  \<open>env_step \<le> beta_anneal_step\<close> the value passed is
  \<open>beta0 - (env_step / beta_anneal_step) * (beta0 - beta_final)\<close> computed in floats, each
  of the four operations rounded to a double, and afterwards it is \<open>beta_final\<close>. For a
  double \<open>beta0\<close> whose difference to \<open>beta_final\<close> is finite the value is \<open>beta0\<close> at step
  0. At step \<open>beta_anneal_step\<close> the quotient is 1 and the value is the float
  \<open>beta0 - (beta0 - beta_final)\<close>, which need not be \<open>beta_final\<close>. For
  \<open>beta0 \<le> beta_final\<close> with a finite difference the value does not decrease with the step
  as long as the step is at most \<open>beta_anneal_step\<close>.
\<close>

theorem beta_annealing_schedule:
  assumes "\<not> no_priority cfg" and "0 < beta_anneal_step cfg" and "0 \<le> env_step"
  shows "snd (train_fn cfg epoch env_step) = None
       \<and> set_beta_args (fst (train_fn cfg epoch env_step)) =
          [if env_step \<le> beta_anneal_step cfg
           then float_sub (arg_beta cfg)
                  (float_mul
                     (Finite (round_double
                        (real_of_int env_step / real_of_int (beta_anneal_step cfg))))
                     (float_sub (arg_beta cfg) (beta_final cfg)))
           else beta_final cfg]
       \<and> (is_double (arg_beta cfg) \<longrightarrow> is_double (float_sub (arg_beta cfg) (beta_final cfg)) \<longrightarrow>
            set_beta_args (fst (train_fn cfg epoch 0)) = [arg_beta cfg])
       \<and> set_beta_args (fst (train_fn cfg epoch (beta_anneal_step cfg))) =
            [float_sub (arg_beta cfg) (float_sub (arg_beta cfg) (beta_final cfg))]
       \<and> (float_le (arg_beta cfg) (beta_final cfg) \<longrightarrow>
          is_double (float_sub (arg_beta cfg) (beta_final cfg)) \<longrightarrow>
          env_step \<le> env_step' \<longrightarrow> env_step' \<le> beta_anneal_step cfg \<longrightarrow>
            float_le (hd (set_beta_args (fst (train_fn cfg epoch env_step))))
                     (hd (set_beta_args (fst (train_fn cfg epoch' env_step')))))"
proof -
  let ?A = "beta_anneal_step cfg"
  have A0: "0 \<le> ?A" using assms(2) by simp
  note b = train_fn_betas [OF assms(1) assms(2)]
  have "set_beta_args (fst (train_fn cfg epoch 0)) = [arg_beta cfg]"
    if "is_double (arg_beta cfg)" "is_double (float_sub (arg_beta cfg) (beta_final cfg))"
    using assms(2) anneal_start [OF that] by (simp add: b(2))
  moreover have "set_beta_args (fst (train_fn cfg epoch ?A)) =
      [float_sub (arg_beta cfg) (float_sub (arg_beta cfg) (beta_final cfg))]"
    using assms(2) by (simp add: b(2) [OF A0] float_mul_one_sub)
  moreover have "float_le (hd (set_beta_args (fst (train_fn cfg epoch env_step))))
                     (hd (set_beta_args (fst (train_fn cfg epoch' env_step'))))"
    if "float_le (arg_beta cfg) (beta_final cfg)"
      "is_double (float_sub (arg_beta cfg) (beta_final cfg))"
      "env_step \<le> env_step'" "env_step' \<le> ?A"
  proof -
    have s': "0 \<le> env_step'" using assms(3) that(3) by simp
    have s: "env_step \<le> ?A" using that(3,4) by simp
    show ?thesis
      using anneal_mono [OF that(1,2) assms(2,3) that(3,4)] s that(4)
      by (simp only: b(2) [OF assms(3)] b(2) [OF s'] list.sel if_True)
  qed
  ultimately show ?thesis using b [OF assms(3)] by blast
qed
lemmas double_eval =
  float_of_real_def round_double_def exponent_def expo_up.simps expo_down.simps
  round_even_def overflows_def Let_def power_int_minus

lemma float_literals:
  "float_of_real (2 / 5) = Finite (3602879701896397 / 9007199254740992)"
  "float_of_real (3 / 10) = Finite (5404319552844595 / 18014398509481984)"
  "float_of_real (9 / 10) = Finite (8106479329266893 / 9007199254740992)"
  "float_of_real (1 / 20) = Finite (3602879701896397 / 72057594037927936)"
  by (simp_all add: double_eval)

theorem beta_annealing_schedule_witness:
  "\<not> no_priority \<lparr>eps_train = Finite 1, eps_train_final = float_of_real (1 / 20),
        no_priority = False, arg_beta = float_of_real (2 / 5), beta_final = Finite 1,
        beta_anneal_step = 5000000\<rparr>
   \<and> (0::int) < beta_anneal_step \<lparr>eps_train = Finite 1, eps_train_final = float_of_real (1 / 20),
        no_priority = False, arg_beta = float_of_real (2 / 5), beta_final = Finite 1,
        beta_anneal_step = 5000000\<rparr>
   \<and> (0::int) \<le> 2500000 \<and> (2500000::int) \<le> 5000000 \<and> (5000000::int) \<le> 5000000
   \<and> is_double (float_of_real (2 / 5))
   \<and> is_double (float_sub (float_of_real (2 / 5)) (Finite 1))
   \<and> float_le (float_of_real (2 / 5)) (Finite 1)
   \<and> snd (train_fn \<lparr>eps_train = Finite 1, eps_train_final = float_of_real (1 / 20),
        no_priority = False, arg_beta = float_of_real (2 / 5), beta_final = Finite 1,
        beta_anneal_step = 5000000\<rparr> 1 2500000) = None
   \<and> set_beta_args (fst (train_fn \<lparr>eps_train = Finite 1, eps_train_final = float_of_real (1 / 20),
        no_priority = False, arg_beta = float_of_real (2 / 5), beta_final = Finite 1,
        beta_anneal_step = 5000000\<rparr> 1 2500000))
       = [Finite (3152519739159347 / 4503599627370496)]
   \<and> set_beta_args (fst (train_fn \<lparr>eps_train = Finite 1, eps_train_final = float_of_real (1 / 20),
        no_priority = False, arg_beta = float_of_real (2 / 5), beta_final = Finite 1,
        beta_anneal_step = 5000000\<rparr> 1 0))
       = [Finite (3602879701896397 / 9007199254740992)]
   \<and> set_beta_args (fst (train_fn \<lparr>eps_train = Finite 1, eps_train_final = float_of_real (1 / 20),
        no_priority = False, arg_beta = float_of_real (2 / 5), beta_final = Finite 1,
        beta_anneal_step = 5000000\<rparr> 1 5000000))
       = [Finite 1]
   \<and> float_le
        (hd (set_beta_args (fst (train_fn \<lparr>eps_train = Finite 1,
           eps_train_final = float_of_real (1 / 20), no_priority = False,
           arg_beta = float_of_real (2 / 5), beta_final = Finite 1,
           beta_anneal_step = 5000000\<rparr> 1 2500000))))
        (hd (set_beta_args (fst (train_fn \<lparr>eps_train = Finite 1,
           eps_train_final = float_of_real (1 / 20), no_priority = False,
           arg_beta = float_of_real (2 / 5), beta_final = Finite 1,
           beta_anneal_step = 5000000\<rparr> 2 5000000))))"
proof -
  have q: "round_double (1 / 2) = 1 / 2" by (simp add: double_eval)
  have d: "float_of_real (3602879701896397 / 9007199254740992 - 1)
      = Finite (- (5404319552844595 / 9007199254740992))"
    by (simp add: double_eval)
  have dd: "float_of_real (- (5404319552844595 / 9007199254740992))
      = Finite (- (5404319552844595 / 9007199254740992))"
    by (simp add: double_eval)
  have p: "float_of_real (- (5404319552844595 / 18014398509481984))
      = Finite (- (5404319552844595 / 18014398509481984))"
    by (simp add: double_eval)
  have v: "float_of_real (12610078956637389 / 18014398509481984)
      = Finite (3152519739159347 / 4503599627370496)"
    by (simp add: double_eval)
  have b: "float_of_real (3602879701896397 / 9007199254740992)
      = Finite (3602879701896397 / 9007199254740992)"
    by (simp add: double_eval)
  have o: "float_of_real 1 = Finite 1" by (simp add: double_eval)
  show ?thesis
    using beta_annealing_schedule [where cfg = "\<lparr>eps_train = Finite 1,
        eps_train_final = float_of_real (1 / 20), no_priority = False,
        arg_beta = float_of_real (2 / 5), beta_final = Finite 1, beta_anneal_step = 5000000\<rparr>"
        and epoch = 1 and env_step = 2500000 and env_step' = 5000000 and epoch' = 2]
    by (simp add: float_literals is_double_def q d dd p v b o) auto
qed

text \<open>
  Claim C9 as stated fails where \<^verbatim>\<open>beta_anneal_step\<close> is 0: at step 0 the quotient
  \<^verbatim>\<open>env_step / args.beta_anneal_step\<close> raises \<^verbatim>\<open>ZeroDivisionError\<close> after the
  policy and the logger have been called, and no value reaches \<^verbatim>\<open>buffer.set_beta\<close>.
\<close>

theorem beta_annealing_zero_steps_counterexample:
  "train_fn \<lparr>eps_train = Finite 1, eps_train_final = float_of_real (1 / 20),
        no_priority = False, arg_beta = float_of_real (2 / 5), beta_final = Finite 1,
        beta_anneal_step = 0\<rparr> 1 0
   = ([Policy_set_eps (Finite 1), Logger_write ''train/env_step'' 0 ''train/eps'' (Finite 1)],
      Some ZeroDivisionError)
   \<and> set_beta_args (fst (train_fn \<lparr>eps_train = Finite 1,
        eps_train_final = float_of_real (1 / 20), no_priority = False,
        arg_beta = float_of_real (2 / 5), beta_final = Finite 1,
        beta_anneal_step = 0\<rparr> 1 0)) \<noteq> [float_of_real (2 / 5)]"
proof -
  have e: "float_of_real (1 - 3602879701896397 / 72057594037927936)
      = Finite (4278419646001971 / 4503599627370496)"
    by (simp add: double_eval)
  have o: "float_of_real 1 = Finite 1" by (simp add: double_eval)
  show ?thesis
    using e o
    by (simp add: train_fn_def train_eps_def train_beta_def float_of_int_def float_truediv_def
        int_truediv_def float_literals overflows_def)
qed

text \<open>
  The value at step \<^verbatim>\<open>beta_anneal_step\<close> is the float \<open>beta0 - (beta0 - beta_final)\<close>.
  With the defaults 0.4 and 1.0 of the parser it is 1.0. With
  \<^verbatim>\<open>--beta 0.3 --beta-final 0.9\<close> it is 0.9000000000000001, one spacing above 0.9, and
  the step after it passes 0.9: the schedule exceeds \<^verbatim>\<open>beta_final\<close> and then
  decreases.
\<close>

lemma beta_annealing_overshoot:
  "set_beta_args (fst (train_fn \<lparr>eps_train = Finite 1, eps_train_final = float_of_real (1 / 20),
        no_priority = False, arg_beta = float_of_real (3 / 10),
        beta_final = float_of_real (9 / 10), beta_anneal_step = 5000000\<rparr> 1 5000000))
     = [Finite (4053239664633447 / 4503599627370496)]"
  "set_beta_args (fst (train_fn \<lparr>eps_train = Finite 1, eps_train_final = float_of_real (1 / 20),
        no_priority = False, arg_beta = float_of_real (3 / 10),
        beta_final = float_of_real (9 / 10), beta_anneal_step = 5000000\<rparr> 1 5000001))
     = [Finite (8106479329266893 / 9007199254740992)]"
  "float_of_real (9 / 10) = Finite (8106479329266893 / 9007199254740992)"
  "\<not> float_le (Finite (4053239664633447 / 4503599627370496)) (float_of_real (9 / 10))"
proof -
  let ?cfg = "\<lparr>eps_train = Finite 1, eps_train_final = float_of_real (1 / 20),
        no_priority = False, arg_beta = float_of_real (3 / 10),
        beta_final = float_of_real (9 / 10), beta_anneal_step = 5000000\<rparr>"
  have d: "float_of_real (5404319552844595 / 18014398509481984
                          - 8106479329266893 / 9007199254740992)
      = Finite (- (1351079888211149 / 2251799813685248))"
    by (simp add: double_eval)
  have v: "float_of_real (5404319552844595 / 18014398509481984
                          + 1351079888211149 / 2251799813685248)
      = Finite (4053239664633447 / 4503599627370496)"
    by (simp add: double_eval)
  have h: "\<not> no_priority ?cfg" "0 < beta_anneal_step ?cfg" by simp_all
  have "set_beta_args (fst (train_fn ?cfg 1 5000000))
      = [float_sub (arg_beta ?cfg) (float_sub (arg_beta ?cfg) (beta_final ?cfg))]"
    using train_fn_betas(2) [OF h, of 5000000 1] by (simp add: float_mul_one_sub)
  then show "set_beta_args (fst (train_fn ?cfg 1 5000000))
      = [Finite (4053239664633447 / 4503599627370496)]"
    using d v by (simp add: float_literals)
  show "set_beta_args (fst (train_fn ?cfg 1 5000001))
      = [Finite (8106479329266893 / 9007199254740992)]"
    using train_fn_betas(2) [OF h, of 5000001 1] by (simp add: float_literals)
  show "float_of_real (9 / 10) = Finite (8106479329266893 / 9007199254740992)"
    by (rule float_literals)
  show "\<not> float_le (Finite (4053239664633447 / 4503599627370496)) (float_of_real (9 / 10))"
    by (simp add: float_literals)
qed

text \<open>
  The exploration rate is computed in the same way: with the defaults 1.0 and 0.05 of the
  parser the value that \<^verbatim>\<open>policy.set_eps\<close> receives at step \<open>10 ^ 6\<close> is
  0.050000000000000044, and 0.05 from the next step on.
\<close>

lemma eps_annealing_end:
  "fst (train_fn \<lparr>eps_train = Finite 1, eps_train_final = float_of_real (1 / 20),
        no_priority = True, arg_beta = float_of_real (2 / 5), beta_final = Finite 1,
        beta_anneal_step = 5000000\<rparr> 1 1000000)
     = [Policy_set_eps (Finite (225179981368525 / 4503599627370496)),
        Logger_write ''train/env_step'' 1000000 ''train/eps''
          (Finite (225179981368525 / 4503599627370496))]"
  "fst (train_fn \<lparr>eps_train = Finite 1, eps_train_final = float_of_real (1 / 20),
        no_priority = True, arg_beta = float_of_real (2 / 5), beta_final = Finite 1,
        beta_anneal_step = 5000000\<rparr> 1 1000001)
     = [Policy_set_eps (Finite (3602879701896397 / 72057594037927936))]"
proof -
  have i: "float_of_int 1000000 = Inr (Finite 1000000)"
    using float_of_int_small [of 1000000] by simp
  have o: "float_of_real 1 = Finite 1" by (simp add: double_eval)
  have e: "float_of_real (1 - 3602879701896397 / 72057594037927936)
      = Finite (4278419646001971 / 4503599627370496)"
    by (simp add: double_eval)
  have m: "float_of_real (4278419646001971 / 4503599627370496)
      = Finite (4278419646001971 / 4503599627370496)"
    by (simp add: double_eval)
  have v: "float_of_real (1 - 4278419646001971 / 4503599627370496)
      = Finite (225179981368525 / 4503599627370496)"
    by (simp add: double_eval)
  show "fst (train_fn \<lparr>eps_train = Finite 1, eps_train_final = float_of_real (1 / 20),
        no_priority = True, arg_beta = float_of_real (2 / 5), beta_final = Finite 1,
        beta_anneal_step = 5000000\<rparr> 1 1000000)
     = [Policy_set_eps (Finite (225179981368525 / 4503599627370496)),
        Logger_write ''train/env_step'' 1000000 ''train/eps''
          (Finite (225179981368525 / 4503599627370496))]"
    using e m v by (simp add: train_fn_def train_eps_def float_truediv_def i o float_literals)
  show "fst (train_fn \<lparr>eps_train = Finite 1, eps_train_final = float_of_real (1 / 20),
        no_priority = True, arg_beta = float_of_real (2 / 5), beta_final = Finite 1,
        beta_anneal_step = 5000000\<rparr> 1 1000001)
     = [Policy_set_eps (Finite (3602879701896397 / 72057594037927936))]"
    by (simp add: train_fn_def train_eps_def float_literals)
qed

text \<open>
  A step of \<open>- (2 ^ 1024)\<close> or below cannot be converted to a float: \<^verbatim>\<open>env_step / 1e6\<close>
  raises \<^verbatim>\<open>OverflowError\<close> before anything is called.
\<close>

lemma train_fn_overflow:
  assumes "env_step \<le> - (2 ^ 1024)"
  shows "train_fn cfg epoch env_step = ([], Some OverflowError)"
proof -
  have "2 ^ 1024 \<le> \<bar>env_step\<bar>" using assms by simp
  then have "float_of_int env_step = Inl OverflowError" by (rule float_of_int_overflow)
  moreover have "env_step \<le> 1000000" using assms by simp
  ultimately show ?thesis by (simp add: train_fn_def train_eps_def)
qed

section \<open>Pickling round trip\<close>

text \<open>
  Claim C10. If \<^verbatim>\<open>cloudpickle.loads\<close> inverts \<^verbatim>\<open>cloudpickle.dumps\<close> and the value
  \<open>v\<close> can be pickled, then \<^verbatim>\<open>__getstate__\<close> of a wrapper that holds \<open>v\<close> returns the
  pickled string, and \<^verbatim>\<open>__setstate__\<close> with that string succeeds on any object and
  leaves a wrapper whose data is \<open>v\<close>.
\<close>

theorem cloudpickle_roundtrip:
  assumes inverse: "\<And>x s. dumps x = Inr s \<Longrightarrow> loads s = Inr x"
    and picklable: "dumps v = Inr s"
  shows "getstate dumps (CloudpickleWrapper_init v) = Inr s
       \<and> (\<exists>self'. setstate loads self s = Inr self' \<and> data self' = Some v
             \<and> data self' = data (CloudpickleWrapper_init v))"
proof -
  have "loads s = Inr v" using inverse picklable .
  then show ?thesis
    using picklable by (simp add: getstate_def setstate_def CloudpickleWrapper_init_def)
qed

theorem cloudpickle_roundtrip_witness:
  "(\<lambda>n :: nat. Inr (replicate n CHR ''a'') :: error + string) 3 = Inr ''aaa''
   \<and> getstate (\<lambda>n :: nat. Inr (replicate n CHR ''a'')) (CloudpickleWrapper_init 3) = Inr ''aaa''
   \<and> (\<exists>self'. setstate (\<lambda>s. Inr (length s)) \<lparr>data = None\<rparr> ''aaa'' = Inr self'
         \<and> data self' = Some (3 :: nat))"
proof -
  have inverse: "(\<lambda>n :: nat. Inr (replicate n CHR ''a'') :: error + string) x = Inr s
       \<Longrightarrow> (\<lambda>s. Inr (length s) :: error + nat) s = Inr x" for x s
    by auto
  have picklable: "(\<lambda>n :: nat. Inr (replicate n CHR ''a'') :: error + string) 3 = Inr ''aaa''"
    by (simp add: numeral_3_eq_3)
  show ?thesis
    using cloudpickle_roundtrip [of "\<lambda>n :: nat. Inr (replicate n CHR ''a'')" "\<lambda>s. Inr (length s)",
        OF inverse picklable, of "\<lparr>data = None\<rparr>"] picklable
    by blast
qed

section \<open>The missing attribute of the penalty agent\<close>

lemma norm_advantages_undeclared: "''norm_advantages'' \<notin> fst ` set PPOArguments_defaults"
  by (simp add: PPOArguments_defaults_def RLArguments_defaults_def)

text \<open>
  Claim C5. \<^verbatim>\<open>PPOArguments\<close> declares no field \<^verbatim>\<open>norm_advantages\<close>. For an agent
  whose arguments have exactly the declared fields, and for every batch on which the forward
  computations succeed, \<^verbatim>\<open>learn\<close> raises \<^verbatim>\<open>AttributeError\<close> at the normalisation
  branch and leaves the agent as it was: the network, the optimizer and
  \<^verbatim>\<open>learner_update_step\<close> are unchanged.
\<close>

theorem learn_raises_AttributeError:
  assumes declared: "dom (args self) = fst ` set PPOArguments_defaults"
    and reached: "forward ops (actor_critic self) batch = Inr fwd"
  shows "''norm_advantages'' \<notin> fst ` set PPOArguments_defaults
       \<and> learn ops self batch = (Inl (AttributeError ''norm_advantages''), self)
       \<and> actor_critic (snd (learn ops self batch)) = actor_critic self
       \<and> optimizer (snd (learn ops self batch)) = optimizer self
       \<and> learner_update_step (snd (learn ops self batch)) = learner_update_step self"
proof -
  have "''norm_advantages'' \<notin> dom (args self)"
    using declared norm_advantages_undeclared by simp
  then have "getattr (args self) ''norm_advantages'' = Inl (AttributeError ''norm_advantages'')"
    by (simp add: getattr_def domIff)
  then have "learn ops self batch = (Inl (AttributeError ''norm_advantages''), self)"
    using reached by (simp add: learn_def attempt_def)
  then show ?thesis using norm_advantages_undeclared by simp
qed

theorem learn_raises_AttributeError_witness:
  "dom (map_of PPOArguments_defaults) = fst ` set PPOArguments_defaults
   \<and> learn \<lparr>forward = (\<lambda>net batch. Inr (net + batch)), normalize = (\<lambda>batch. batch),
             actor_loss = (\<lambda>fwd batch clip. Inr fwd),
             value_loss = (\<lambda>fwd batch cv clip. Inr fwd),
             total_loss = (\<lambda>fwd al vl vc ec. Inr (al + vl)),
             backward = (\<lambda>opt net loss. Inr (opt, net)),
             step = (\<lambda>opt net mg. Inr (Suc opt, net + 1)),
             metrics = (\<lambda>fwd loss vl al clip. [])\<rparr>
        \<lparr>args = map_of PPOArguments_defaults, actor_critic = (5 :: nat), optimizer = (0 :: nat),
          learner_update_step = 0\<rparr> (1 :: nat)
      = (Inl (AttributeError ''norm_advantages''),
         \<lparr>args = map_of PPOArguments_defaults, actor_critic = 5, optimizer = 0,
           learner_update_step = 0\<rparr>)"
proof -
  have declared: "dom (args \<lparr>args = map_of PPOArguments_defaults, actor_critic = (5 :: nat),
        optimizer = (0 :: nat), learner_update_step = 0\<rparr>) = fst ` set PPOArguments_defaults"
    by (simp add: dom_map_of_conv_image_fst)
  show ?thesis
    using declared
      learn_raises_AttributeError [OF declared,
        of "\<lparr>forward = (\<lambda>net batch. Inr (net + batch)), normalize = (\<lambda>batch. batch),
             actor_loss = (\<lambda>fwd batch clip. Inr fwd),
             value_loss = (\<lambda>fwd batch cv clip. Inr fwd),
             total_loss = (\<lambda>fwd al vl vc ec. Inr (al + vl)),
             backward = (\<lambda>opt net loss. Inr (opt, net)),
             step = (\<lambda>opt net mg. Inr (Suc opt, net + 1)),
             metrics = (\<lambda>fwd loss vl al clip. [])\<rparr>" 1 6]
    by simp
qed

section \<open>Setting the exponent of every sub-buffer\<close>

text \<open>
  Claim C8. After \<^verbatim>\<open>set_beta(b)\<close> on a prioritized vector buffer every sub-buffer has
  the exponent \<open>b\<close>, and nothing else has changed: putting the old exponent back gives the
  old sub-buffer, so the stored transitions, the sizes, the cursors and the priorities are the
  same, and so are the number of sub-buffers, the offsets and the total capacity.
\<close>

theorem vector_set_beta_frame:
  "(\<forall>buffer \<in> set (buffers (vector_set_beta b m)). beta buffer = b)
   \<and> length (buffers (vector_set_beta b m)) = length (buffers m)
   \<and> (\<forall>i < length (buffers m).
         beta (buffers (vector_set_beta b m) ! i) = b
       \<and> (buffers (vector_set_beta b m) ! i)\<lparr>beta := beta (buffers m ! i)\<rparr> = buffers m ! i
       \<and> slots (buffers (vector_set_beta b m) ! i) = slots (buffers m ! i)
       \<and> cur_size (buffers (vector_set_beta b m) ! i) = cur_size (buffers m ! i)
       \<and> cursor (buffers (vector_set_beta b m) ! i) = cursor (buffers m ! i)
       \<and> weight (buffers (vector_set_beta b m) ! i) = weight (buffers m ! i)
       \<and> alpha (buffers (vector_set_beta b m) ! i) = alpha (buffers m ! i))
   \<and> offset (vector_set_beta b m) = offset m
   \<and> total_capacity (vector_set_beta b m) = total_capacity m
   \<and> (vector_set_beta b m)\<lparr>buffers := buffers m\<rparr> = m"
  by (simp add: vector_set_beta_def set_beta_def)


theorem vector_set_beta_frame_witness:
  "length (buffers (projr (PrioritizedVectorReplayBuffer_init positive_capacity 4 2
            \<lparr>opt_alpha = 1 / 2, opt_beta = 2 / 5, opt_weight_norm = True\<rparr>
          :: error + (prio_options, nat) PrioritizedReplayBuffer ReplayBufferManager))) = 2
   \<and> beta (buffers (projr (PrioritizedVectorReplayBuffer_init positive_capacity 4 2
            \<lparr>opt_alpha = 1 / 2, opt_beta = 2 / 5, opt_weight_norm = True\<rparr>
          :: error + (prio_options, nat) PrioritizedReplayBuffer ReplayBufferManager)) ! 1) = 2 / 5
   \<and> map beta (buffers (vector_set_beta (7 / 10) (projr (PrioritizedVectorReplayBuffer_init positive_capacity 4 2
            \<lparr>opt_alpha = 1 / 2, opt_beta = 2 / 5, opt_weight_norm = True\<rparr>
          :: error + (prio_options, nat) PrioritizedReplayBuffer ReplayBufferManager)))) = [7 / 10, 7 / 10]
   \<and> beta (buffers (vector_set_beta (7 / 10) (projr (PrioritizedVectorReplayBuffer_init positive_capacity 4 2
            \<lparr>opt_alpha = 1 / 2, opt_beta = 2 / 5, opt_weight_norm = True\<rparr>
          :: error + (prio_options, nat) PrioritizedReplayBuffer ReplayBufferManager))) ! 1) = 7 / 10
   \<and> slots (buffers (vector_set_beta (7 / 10) (projr (PrioritizedVectorReplayBuffer_init positive_capacity 4 2
            \<lparr>opt_alpha = 1 / 2, opt_beta = 2 / 5, opt_weight_norm = True\<rparr>
          :: error + (prio_options, nat) PrioritizedReplayBuffer ReplayBufferManager))) ! 1) = [None, None]
   \<and> weight (buffers (vector_set_beta (7 / 10) (projr (PrioritizedVectorReplayBuffer_init positive_capacity 4 2
            \<lparr>opt_alpha = 1 / 2, opt_beta = 2 / 5, opt_weight_norm = True\<rparr>
          :: error + (prio_options, nat) PrioritizedReplayBuffer ReplayBufferManager))) ! 1) = weight (buffers (projr (PrioritizedVectorReplayBuffer_init positive_capacity 4 2
            \<lparr>opt_alpha = 1 / 2, opt_beta = 2 / 5, opt_weight_norm = True\<rparr>
          :: error + (prio_options, nat) PrioritizedReplayBuffer ReplayBufferManager)) ! 1)
   \<and> total_capacity (vector_set_beta (7 / 10) (projr (PrioritizedVectorReplayBuffer_init positive_capacity 4 2
            \<lparr>opt_alpha = 1 / 2, opt_beta = 2 / 5, opt_weight_norm = True\<rparr>
          :: error + (prio_options, nat) PrioritizedReplayBuffer ReplayBufferManager))) = 4"
proof -
  have M: "(projr (PrioritizedVectorReplayBuffer_init positive_capacity 4 2
            \<lparr>opt_alpha = 1 / 2, opt_beta = 2 / 5, opt_weight_norm = True\<rparr>
          :: error + (prio_options, nat) PrioritizedReplayBuffer ReplayBufferManager)) = ReplayBufferManager_init (replicate 2
      \<lparr>maxsize = 2, options = \<lparr>opt_alpha = 1 / 2, opt_beta = 2 / 5, opt_weight_norm = True\<rparr>,
       slots = [None, None], cur_size = 0, cursor = 0, ep_rew = 0, ep_len = 0,
       alpha = 1 / 2, beta = 2 / 5, weight_norm = True, weight = SumTree_init 2\<rparr>)"
    using sub_buffer_size_ceiling [of 2 4]
    by (simp add: PrioritizedVectorReplayBuffer_init_def PrioritizedReplayBuffer_init_def
        positive_capacity_def list_comprehension_const numeral_2_eq_2)
  have len: "length (buffers (projr (PrioritizedVectorReplayBuffer_init positive_capacity 4 2
            \<lparr>opt_alpha = 1 / 2, opt_beta = 2 / 5, opt_weight_norm = True\<rparr>
          :: error + (prio_options, nat) PrioritizedReplayBuffer ReplayBufferManager))) = 2"
    by (simp add: M ReplayBufferManager_init_def)
  have old: "beta (buffers (projr (PrioritizedVectorReplayBuffer_init positive_capacity 4 2
            \<lparr>opt_alpha = 1 / 2, opt_beta = 2 / 5, opt_weight_norm = True\<rparr>
          :: error + (prio_options, nat) PrioritizedReplayBuffer ReplayBufferManager)) ! 1) = 2 / 5" "slots (buffers (projr (PrioritizedVectorReplayBuffer_init positive_capacity 4 2
            \<lparr>opt_alpha = 1 / 2, opt_beta = 2 / 5, opt_weight_norm = True\<rparr>
          :: error + (prio_options, nat) PrioritizedReplayBuffer ReplayBufferManager)) ! 1) = [None, None]"
    "total_capacity (projr (PrioritizedVectorReplayBuffer_init positive_capacity 4 2
            \<lparr>opt_alpha = 1 / 2, opt_beta = 2 / 5, opt_weight_norm = True\<rparr>
          :: error + (prio_options, nat) PrioritizedReplayBuffer ReplayBufferManager)) = 4"
    by (simp_all add: M ReplayBufferManager_init_def numeral_2_eq_2)
  have i: "1 < length (buffers (projr (PrioritizedVectorReplayBuffer_init positive_capacity 4 2
            \<lparr>opt_alpha = 1 / 2, opt_beta = 2 / 5, opt_weight_norm = True\<rparr>
          :: error + (prio_options, nat) PrioritizedReplayBuffer ReplayBufferManager)))"
    using len by simp
  show ?thesis
    using vector_set_beta_frame [of "7 / 10" "(projr (PrioritizedVectorReplayBuffer_init positive_capacity 4 2
            \<lparr>opt_alpha = 1 / 2, opt_beta = 2 / 5, opt_weight_norm = True\<rparr>
          :: error + (prio_options, nat) PrioritizedReplayBuffer ReplayBufferManager))"] len old i
    by (simp add: list_eq_iff_nth_eq nth_Cons' less_Suc_eq numeral_2_eq_2)
qed

section \<open>Circular overwriting in a single buffer\<close>

lemma add_all_append: "add_all b (xs @ ys) = add_all (add_all b xs) ys"
  by (induction xs arbitrary: b) simp_all

lemma add_all_snoc: "add_all b (xs @ [x]) = snd (ReplayBuffer_add (add_all b xs) x)"
  by (simp add: add_all_append)

lemma ReplayBuffer_add_fields:
  "maxsize (snd (ReplayBuffer_add b x)) = maxsize b"
  "options (snd (ReplayBuffer_add b x)) = options b"
  "slots (snd (ReplayBuffer_add b x)) = (slots b)[cursor b := Some x]"
  "cur_size (snd (ReplayBuffer_add b x)) = min (cur_size b + 1) (nat (maxsize b))"
  "cursor (snd (ReplayBuffer_add b x)) = (cursor b + 1) mod nat (maxsize b)"
  "fst (fst (ReplayBuffer_add b x)) = cursor b"
  by (simp_all add: ReplayBuffer_add_def Let_def)

lemma distinct_slots:
  fixes i n N :: nat
  assumes "i < n" and "n < i + N"
  shows "i mod N \<noteq> n mod N"
proof
  assume "i mod N = n mod N"
  then have "N dvd n - i"
    using assms(1) by (metis mod_eq_dvd_iff_nat less_imp_le_nat)
  moreover have "0 < n - i" "n - i < N" using assms by simp_all
  ultimately show False by (meson dvd_imp_le not_le)
qed

lemma add_all_state:
  fixes N :: nat
  assumes N: "0 < N" and b: "ReplayBuffer_init valid (int N) kw = Inr b"
  shows "maxsize (add_all b xs) = int N
       \<and> length (slots (add_all b xs)) = N
       \<and> cur_size (add_all b xs) = min (length xs) N
       \<and> cursor (add_all b xs) = length xs mod N
       \<and> (\<forall>i < length xs. length xs \<le> i + N \<longrightarrow> slots (add_all b xs) ! (i mod N) = Some (xs ! i))
       \<and> (\<forall>j < N. length xs \<le> j \<longrightarrow> slots (add_all b xs) ! j = None)"
proof (induction xs rule: rev_induct)
  case Nil
  from b show ?case
    by (auto simp: ReplayBuffer_init_def split: if_splits)
next
  case (snoc x xs)
  let ?s = "add_all b xs"
  let ?n = "length xs"
  from snoc have m: "maxsize ?s = int N" and l: "length (slots ?s) = N"
    and sz: "cur_size ?s = min ?n N" and c: "cursor ?s = ?n mod N"
    and kept: "\<And>i. i < ?n \<Longrightarrow> ?n \<le> i + N \<Longrightarrow> slots ?s ! (i mod N) = Some (xs ! i)"
    and free: "\<And>j. j < N \<Longrightarrow> ?n \<le> j \<Longrightarrow> slots ?s ! j = None"
    by blast+
  have cN: "?n mod N < N" using N by simp
  have "maxsize (add_all b (xs @ [x])) = int N"
    by (simp add: add_all_snoc ReplayBuffer_add_fields m)
  moreover have "length (slots (add_all b (xs @ [x]))) = N"
    by (simp add: add_all_snoc ReplayBuffer_add_fields l)
  moreover have "cur_size (add_all b (xs @ [x])) = min (length (xs @ [x])) N"
    by (simp add: add_all_snoc ReplayBuffer_add_fields m sz)
  moreover have "cursor (add_all b (xs @ [x])) = length (xs @ [x]) mod N"
    by (simp add: add_all_snoc ReplayBuffer_add_fields m c mod_Suc)
  moreover have "slots (add_all b (xs @ [x])) ! (i mod N) = Some ((xs @ [x]) ! i)"
    if i: "i < length (xs @ [x])" "length (xs @ [x]) \<le> i + N" for i
  proof (cases "i = ?n")
    case True
    then show ?thesis
      using cN by (simp add: add_all_snoc ReplayBuffer_add_fields c l)
  next
    case False
    then have lt: "i < ?n" using i(1) by simp
    have "?n < i + N" using i(2) by simp
    then have ne: "i mod N \<noteq> ?n mod N" by (rule distinct_slots [OF lt])
    have "slots ?s ! (i mod N) = Some (xs ! i)"
      using kept [OF lt] i(2) by simp
    then show ?thesis
      using ne lt by (simp add: add_all_snoc ReplayBuffer_add_fields c nth_append)
  qed
  moreover have "slots (add_all b (xs @ [x])) ! j = None"
    if j: "j < N" "length (xs @ [x]) \<le> j" for j
  proof -
    have "?n < N" using j by simp
    then have "?n mod N = ?n" by simp
    moreover have "j \<noteq> ?n" using j(2) by simp
    moreover have "slots ?s ! j = None" using free [OF j(1)] j(2) by simp
    ultimately show ?thesis
      by (simp add: add_all_snoc ReplayBuffer_add_fields c)
  qed
  ultimately show ?case by blast
qed

lemma scenario_5_7:
  "map (map_option obs)
     (slots (add_all (projr (ReplayBuffer_init positive_capacity 5 ()))
        (map tagged [0, 1, 2, 3, 4, 5, 6 :: nat])))
     = [Some 5, Some 6, Some 2, Some 3, Some 4]"
  "cursor (add_all (projr (ReplayBuffer_init positive_capacity 5 ()))
        (map tagged [0, 1, 2, 3, 4, 5, 6 :: nat])) = 2"
  "cur_size (add_all (projr (ReplayBuffer_init positive_capacity 5 ()))
        (map tagged [0, 1, 2, 3, 4, 5, 6 :: nat])) = 5"
  by code_simp+


text \<open>
  Claim C2. In a buffer of capacity \<open>N\<close> that has received more than \<open>N\<close> transitions,
  the size is \<open>N\<close>, the cursor is the number of transitions modulo \<open>N\<close> and is the index
  of the next write, each of the last \<open>N\<close> transitions sits in the slot of its number
  modulo \<open>N\<close>, and the cursor points at the oldest of them, which is the next to be
  overwritten. After the tags 0 to 6 have been added to a buffer of capacity 5, the slots
  hold 5, 6, 2, 3, 4 in this order and the cursor is 2.
\<close>

theorem circular_overwrite:
  fixes N :: nat
  assumes "0 < N" and "ReplayBuffer_init valid (int N) kw = Inr b" and "N < length xs"
  shows "cur_size (add_all b xs) = N
       \<and> cursor (add_all b xs) = length xs mod N
       \<and> fst (fst (ReplayBuffer_add (add_all b xs) x)) = length xs mod N
       \<and> (\<forall>i < length xs. length xs \<le> i + N \<longrightarrow>
             slots (add_all b xs) ! (i mod N) = Some (xs ! i))
       \<and> slots (add_all b xs) ! cursor (add_all b xs) = Some (xs ! (length xs - N))
       \<and> map (map_option obs)
            (slots (add_all (projr (ReplayBuffer_init positive_capacity 5 ()))
               (map tagged [0, 1, 2, 3, 4, 5, 6 :: nat])))
          = [Some 5, Some 6, Some 2, Some 3, Some 4]
       \<and> cursor (add_all (projr (ReplayBuffer_init positive_capacity 5 ()))
               (map tagged [0, 1, 2, 3, 4, 5, 6 :: nat])) = 2"
proof -
  note st = add_all_state [OF assms(1,2), of xs]
  have sz: "cur_size (add_all b xs) = N" using st assms(3) by simp
  have c: "cursor (add_all b xs) = length xs mod N" using st by blast
  have nxt: "fst (fst (ReplayBuffer_add (add_all b xs) x)) = length xs mod N"
    using c by (simp add: ReplayBuffer_add_fields)
  have kept: "\<forall>i < length xs. length xs \<le> i + N \<longrightarrow>
             slots (add_all b xs) ! (i mod N) = Some (xs ! i)"
    using st by blast
  have m: "(length xs - N) mod N = length xs mod N"
    using assms(3) by (simp add: le_mod_geq less_imp_le_nat)
  have "length xs - N < length xs" "length xs \<le> length xs - N + N"
    using assms(1,3) by simp_all
  then have "slots (add_all b xs) ! ((length xs - N) mod N) = Some (xs ! (length xs - N))"
    using kept by blast
  then have oldest: "slots (add_all b xs) ! cursor (add_all b xs) = Some (xs ! (length xs - N))"
    by (simp only: m c)
  from sz c nxt kept oldest scenario_5_7(1,2) show ?thesis
    by (intro conjI)
qed


theorem circular_overwrite_witness:
  "(0::nat) < 5
   \<and> ReplayBuffer_init positive_capacity (int 5) () = Inr \<lparr>maxsize = 5, options = (), slots = replicate 5 None, cur_size = 0,
          cursor = 0, ep_rew = 0, ep_len = 0\<rparr>
   \<and> 5 < length (map tagged [0, 1, 2, 3, 4, 5, 6 :: nat])
   \<and> cur_size (add_all \<lparr>maxsize = 5, options = (), slots = replicate 5 None, cur_size = 0,
          cursor = 0, ep_rew = 0, ep_len = 0\<rparr> (map tagged [0, 1, 2, 3, 4, 5, 6 :: nat])) = 5
   \<and> cursor (add_all \<lparr>maxsize = 5, options = (), slots = replicate 5 None, cur_size = 0,
          cursor = 0, ep_rew = 0, ep_len = 0\<rparr> (map tagged [0, 1, 2, 3, 4, 5, 6 :: nat])) = 2
   \<and> slots (add_all \<lparr>maxsize = 5, options = (), slots = replicate 5 None, cur_size = 0,
          cursor = 0, ep_rew = 0, ep_len = 0\<rparr> (map tagged [0, 1, 2, 3, 4, 5, 6 :: nat])) ! 2 = Some (tagged 2)"
proof -
  have h1: "(0::nat) < 5" by simp
  have h2: "ReplayBuffer_init positive_capacity (int 5) () = Inr \<lparr>maxsize = 5, options = (), slots = replicate 5 None, cur_size = 0,
          cursor = 0, ep_rew = 0, ep_len = 0\<rparr>"
    by (simp add: ReplayBuffer_init_def positive_capacity_def)
  have h3: "5 < length (map tagged [0, 1, 2, 3, 4, 5, 6 :: nat])" by simp
  note T = circular_overwrite [OF h1 h2 h3]
  have l: "length (map tagged [0, 1, 2, 3, 4, 5, 6 :: nat]) mod 5 = 2" by simp
  have v: "map tagged [0, 1, 2, 3, 4, 5, 6 :: nat]
             ! (length (map tagged [0, 1, 2, 3, 4, 5, 6 :: nat]) - 5) = tagged 2"
    by simp
  have sz: "cur_size (add_all \<lparr>maxsize = 5, options = (), slots = replicate 5 None, cur_size = 0,
          cursor = 0, ep_rew = 0, ep_len = 0\<rparr> (map tagged [0, 1, 2, 3, 4, 5, 6 :: nat])) = 5"
    by (rule T [THEN conjunct1])
  have c: "cursor (add_all \<lparr>maxsize = 5, options = (), slots = replicate 5 None, cur_size = 0,
          cursor = 0, ep_rew = 0, ep_len = 0\<rparr> (map tagged [0, 1, 2, 3, 4, 5, 6 :: nat])) = 2"
    using T [THEN conjunct2, THEN conjunct1] by (simp only: l)
  have "slots (add_all \<lparr>maxsize = 5, options = (), slots = replicate 5 None, cur_size = 0,
          cursor = 0, ep_rew = 0, ep_len = 0\<rparr> (map tagged [0, 1, 2, 3, 4, 5, 6 :: nat]))
          ! cursor (add_all \<lparr>maxsize = 5, options = (), slots = replicate 5 None, cur_size = 0,
          cursor = 0, ep_rew = 0, ep_len = 0\<rparr> (map tagged [0, 1, 2, 3, 4, 5, 6 :: nat]))
        = Some (map tagged [0, 1, 2, 3, 4, 5, 6 :: nat]
             ! (length (map tagged [0, 1, 2, 3, 4, 5, 6 :: nat]) - 5))"
    by (rule T [THEN conjunct2, THEN conjunct2, THEN conjunct2, THEN conjunct2, THEN conjunct1])
  then have o: "slots (add_all \<lparr>maxsize = 5, options = (), slots = replicate 5 None, cur_size = 0,
          cursor = 0, ep_rew = 0, ep_len = 0\<rparr> (map tagged [0, 1, 2, 3, 4, 5, 6 :: nat])) ! 2 = Some (tagged 2)"
    by (simp only: c v)
  from h1 h2 h3 sz c o show ?thesis by (intro conjI)
qed

section \<open>The sum tree\<close>

subsection \<open>The size of the array\<close>

lemma tree_bound_power: "0 < p \<Longrightarrow> \<exists>k. tree_bound p n = p * 2 ^ k"
proof (induction p n rule: tree_bound.induct)
  case (1 p n)
  show ?case
  proof (cases "p < n")
    case True
    with 1 obtain k where "tree_bound (2 * p) n = 2 * p * 2 ^ k" by auto
    then have "tree_bound p n = p * 2 ^ Suc k"
      using True 1(2) by (simp add: tree_bound.simps [of p n])
    then show ?thesis by blast
  next
    case False
    then have "tree_bound p n = p * 2 ^ 0" by (simp add: tree_bound.simps [of p n])
    then show ?thesis by blast
  qed
qed

lemma tree_bound_ge: "0 < p \<Longrightarrow> n \<le> tree_bound p n"
proof (induction p n rule: tree_bound.induct)
  case (1 p n)
  show ?case
  proof (cases "p < n")
    case True
    with 1 have "n \<le> tree_bound (2 * p) n" by auto
    then show ?thesis using True 1(2) by (simp add: tree_bound.simps [of p n])
  next
    case False
    then show ?thesis by (simp add: tree_bound.simps [of p n])
  qed
qed

lemma SumTree_init_invariant: "sum_tree_invariant (SumTree_init n)"
proof -
  obtain h where h: "tree_bound 1 n = 2 ^ h"
    using tree_bound_power [of 1 n] by auto
  have "n \<le> tree_bound 1 n" by (rule tree_bound_ge) simp
  then show ?thesis
    unfolding sum_tree_invariant_def SumTree_init_def using h by auto
qed

subsection \<open>Paths to the root\<close>

lemma on_path_iff: "on_path i j \<longleftrightarrow> j \<noteq> 0 \<and> (i = j \<or> on_path i (j div 2))"
  by (subst on_path.simps) auto

lemma on_path_le: "on_path i j \<Longrightarrow> 0 < i \<and> i \<le> j"
proof (induction i j rule: on_path.induct)
  case (1 i j)
  from "1.prems" have j: "j \<noteq> 0" and d: "i = j \<or> on_path i (j div 2)"
    by (simp_all add: on_path_iff [of i j])
  from d show ?case
  proof
    assume "i = j" then show ?thesis using j by simp
  next
    assume "on_path i (j div 2)"
    then have "0 < i \<and> i \<le> j div 2" using "1.IH" j by simp
    moreover have "j div 2 \<le> j" by simp
    ultimately show ?thesis by linarith
  qed
qed

lemma on_path_self: "0 < j \<Longrightarrow> on_path j j"
  by (simp add: on_path_iff [of j j])

lemma on_path_parent: "on_path i (j div 2) \<Longrightarrow> on_path i j"
  using on_path_le [of i "j div 2"] by (auto simp: on_path_iff [of i j])

lemma on_path_halve: "on_path a j \<Longrightarrow> 0 < a div 2 \<Longrightarrow> on_path (a div 2) j"
proof (induction a j rule: on_path.induct)
  case (1 a j)
  from "1.prems"(1) have j: "j \<noteq> 0" and d: "a = j \<or> on_path a (j div 2)"
    by (simp_all add: on_path_iff [of a j])
  from d show ?case
  proof
    assume "a = j"
    then have "on_path (a div 2) (j div 2)" using "1.prems"(2) by (simp add: on_path_self)
    then show ?thesis by (rule on_path_parent)
  next
    assume "on_path a (j div 2)"
    then have "on_path (a div 2) (j div 2)" using "1.IH" j "1.prems"(2) by simp
    then show ?thesis by (rule on_path_parent)
  qed
qed

lemma on_path_chain: "on_path a j \<Longrightarrow> on_path b j \<Longrightarrow> a \<le> b \<Longrightarrow> on_path a b"
proof (induction a j rule: on_path.induct)
  case (1 a j)
  from "1.prems"(1) have j: "j \<noteq> 0" and da: "a = j \<or> on_path a (j div 2)"
    by (simp_all add: on_path_iff [of a j])
  from "1.prems"(2) have db: "b = j \<or> on_path b (j div 2)"
    by (simp add: on_path_iff [of b j])
  show ?case
  proof (cases "b = j")
    case True
    then show ?thesis using "1.prems"(1) by simp
  next
    case False
    then have b: "on_path b (j div 2)" using db by simp
    then have "b \<le> j div 2" using on_path_le by blast
    then have "b < j" using j by (simp add: less_eq_div_iff_mult_less_eq) 
    then have "a \<noteq> j" using "1.prems"(3) by simp
    then have "on_path a (j div 2)" using da by simp
    then show ?thesis using "1.IH" j b "1.prems"(3) by simp
  qed
qed

lemma on_path_children_exclusive:
  assumes "0 < k"
  shows "\<not> (on_path (2 * k) j \<and> on_path (2 * k + 1) j)"
proof
  assume "on_path (2 * k) j \<and> on_path (2 * k + 1) j"
  then have "on_path (2 * k) (2 * k + 1)" using on_path_chain [of "2 * k" j "2 * k + 1"] by simp
  then have "2 * k = 2 * k + 1 \<or> on_path (2 * k) ((2 * k + 1) div 2)"
    by (subst (asm) on_path_iff) blast
  moreover have "(2 * k + 1) div 2 = k" by simp
  ultimately have "on_path (2 * k) k" by simp
  then have "2 * k \<le> k" using on_path_le by blast
  then show False using assms by simp
qed

lemma on_path_children:
  assumes "0 < k" and "k \<noteq> j"
  shows "on_path k j \<longleftrightarrow> on_path (2 * k) j \<or> on_path (2 * k + 1) j"
proof
  assume "on_path (2 * k) j \<or> on_path (2 * k + 1) j"
  then show "on_path k j"
    using on_path_halve [of "2 * k" j] on_path_halve [of "2 * k + 1" j] assms(1) by auto
next
  assume "on_path k j"
  then show "on_path (2 * k) j \<or> on_path (2 * k + 1) j"
    using assms(2)
  proof (induction k j rule: on_path.induct)
    case (1 k j)
    from "1.prems" have j: "j \<noteq> 0" and up: "on_path k (j div 2)"
      by (simp_all add: on_path_iff [of k j])
    show ?case
    proof (cases "k = j div 2")
      case True
      then have "j = 2 * k \<or> j = 2 * k + 1" by presburger
      then show ?thesis using j on_path_self [of j] by auto
    next
      case False
      then have "on_path (2 * k) (j div 2) \<or> on_path (2 * k + 1) (j div 2)"
        using "1.IH" j up by simp
      then show ?thesis using on_path_parent by blast
    qed
  qed
qed

subsection \<open>Propagation\<close>

lemma propagate_0: "propagate vs 0 d = vs"
  by (subst propagate.simps) simp

lemma propagate_step: "j \<noteq> 0 \<Longrightarrow> propagate vs j d = propagate (vs[j := vs ! j + d]) (j div 2) d"
  by (subst propagate.simps) simp

lemma on_path_0: "\<not> on_path i 0"
  by (subst on_path.simps) simp

lemma propagate_length: "length (propagate vs j d) = length vs"
proof (induction vs j d rule: propagate.induct)
  case (1 vs j d)
  then show ?case by (cases "j = 0") (simp_all add: propagate_0 propagate_step)
qed

lemma propagate_nth:
  "j < length vs \<Longrightarrow> i < length vs \<Longrightarrow>
     propagate vs j d ! i = vs ! i + (if on_path i j then d else 0)"
proof (induction vs j d rule: propagate.induct)
  case (1 vs j d)
  show ?case
  proof (cases "j = 0")
    case True
    then show ?thesis by (simp add: propagate_0 on_path_0)
  next
    case False
    let ?vs = "vs[j := vs ! j + d]"
    have half: "j div 2 < length ?vs" using "1.prems"(1) by simp
    have i: "i < length ?vs" using "1.prems"(2) by simp
    have IH: "propagate ?vs (j div 2) d ! i = ?vs ! i + (if on_path i (j div 2) then d else 0)"
      using "1.IH" [OF False half i] .
    have excl: "\<not> on_path j (j div 2)"
    proof
      assume "on_path j (j div 2)"
      then have "j \<le> j div 2" using on_path_le by blast
      then show False using False by simp
    qed
    show ?thesis
    proof (cases "i = j")
      case True
      then show ?thesis
        using False IH excl "1.prems"
        by (simp add: propagate_step on_path_self)
    next
      case neq: False
      then show ?thesis
        using False IH "1.prems"
        by (simp add: propagate_step on_path_iff [of i j])
    qed
  qed
qed

subsection \<open>Updates keep the invariant\<close>

lemma SumTree_update_nodes:
  assumes inv: "sum_tree_invariant t" and i: "i < capacity t"
    and c: "c < length (nodes t)"
  shows "\<exists>t'. SumTree_update \<alpha> t i p = Inr t'
           \<and> capacity t' = capacity t \<and> bound t' = bound t
           \<and> length (nodes t') = length (nodes t)
           \<and> nodes t' ! c = nodes t ! c
                + (if on_path c (bound t + i) then p powr \<alpha> - nodes t ! (bound t + i) else 0)"
proof -
  let ?L = "bound t + i"
  let ?v = "p powr \<alpha>"
  let ?d = "?v - nodes t ! ?L"
  let ?vs = "(nodes t)[?L := ?v]"
  from inv have len: "length (nodes t) = 2 * bound t" and cap: "capacity t \<le> bound t"
    by (simp_all add: sum_tree_invariant_def)
  have L: "?L < length (nodes t)" "0 < ?L" using i cap len by simp_all
  have half: "?L div 2 < length ?vs" using L by simp
  have "propagate ?vs (?L div 2) ?d ! c = ?vs ! c + (if on_path c (?L div 2) then ?d else 0)"
    using propagate_nth [OF half, of c] c by simp
  moreover have "\<not> on_path ?L (?L div 2)"
  proof
    assume "on_path ?L (?L div 2)"
    then have "?L \<le> ?L div 2" using on_path_le by blast
    then show False using L(2) by linarith
  qed
  ultimately have "propagate ?vs (?L div 2) ?d ! c
      = nodes t ! c + (if on_path c ?L then ?d else 0)"
    using L c by (cases "c = ?L") (simp_all add: on_path_iff [of _ ?L])
  then show ?thesis
    using i by (simp add: SumTree_update_def Let_def propagate_length)
qed

lemma SumTree_update_invariant:
  assumes inv: "sum_tree_invariant t" and i: "i < capacity t"
  shows "\<exists>t'. SumTree_update \<alpha> t i p = Inr t' \<and> sum_tree_invariant t'
           \<and> capacity t' = capacity t \<and> bound t' = bound t
           \<and> leaf t' i = p powr \<alpha>
           \<and> (\<forall>k. k < bound t \<and> k \<noteq> i \<longrightarrow> leaf t' k = leaf t k)"
proof -
  let ?L = "bound t + i"
  let ?d = "p powr \<alpha> - nodes t ! ?L"
  from inv have len: "length (nodes t) = 2 * bound t" and cap: "capacity t \<le> bound t"
    and pow: "\<exists>h. bound t = 2 ^ h"
    and sums: "\<And>k. 0 < k \<Longrightarrow> k < bound t \<Longrightarrow>
        nodes t ! k = nodes t ! (2 * k) + nodes t ! (2 * k + 1)"
    and zero: "\<And>k. capacity t \<le> k \<Longrightarrow> k < bound t \<Longrightarrow> nodes t ! (bound t + k) = 0"
    by (simp_all add: sum_tree_invariant_def)
  have L: "?L < length (nodes t)" "0 < ?L" using i cap len by simp_all
  obtain t' where t': "SumTree_update \<alpha> t i p = Inr t'"
    using i by (simp add: SumTree_update_def Let_def)
  have same: "capacity t' = capacity t" "bound t' = bound t" "length (nodes t') = length (nodes t)"
    using SumTree_update_nodes [OF inv i L(1), of \<alpha> p] t' by auto
  have nth: "nodes t' ! c = nodes t ! c + (if on_path c ?L then ?d else 0)"
    if "c < length (nodes t)" for c
    using SumTree_update_nodes [OF inv i that, of \<alpha> p] t' by auto
  have leaf_path: "on_path (bound t + k) ?L \<longleftrightarrow> k = i" if "k < bound t" for k
  proof
    assume "k = i" then show "on_path (bound t + k) ?L" using L(2) by (simp add: on_path_self)
  next
    assume p: "on_path (bound t + k) ?L"
    show "k = i"
    proof (rule ccontr)
      assume "k \<noteq> i"
      then have "on_path (bound t + k) (?L div 2)"
        using p by (simp add: on_path_iff [of "bound t + k" ?L])
      then have "bound t + k \<le> ?L div 2" using on_path_le by blast
      then show False using i cap by linarith
    qed
  qed
  have li: "leaf t' i = p powr \<alpha>"
    using nth [OF L(1)] leaf_path [of i] i cap by (simp add: leaf_def same)
  have lk: "leaf t' k = leaf t k" if "k < bound t" "k \<noteq> i" for k
    using nth [of "bound t + k"] leaf_path [OF that(1)] that len by (simp add: leaf_def same)
  have sums': "nodes t' ! k = nodes t' ! (2 * k) + nodes t' ! (2 * k + 1)"
    if k: "0 < k" "k < bound t" for k
  proof -
    have ne: "k \<noteq> ?L" using k by simp
    have r: "k < length (nodes t)" "2 * k < length (nodes t)" "2 * k + 1 < length (nodes t)"
      using k len by simp_all
    note e = nth [OF r(1)] nth [OF r(2)] nth [OF r(3)]
    show ?thesis
    proof (cases "on_path k ?L")
      case True
      then have "on_path (2 * k) ?L \<or> on_path (2 * k + 1) ?L"
        using on_path_children [OF k(1) ne] by simp
      moreover have "\<not> (on_path (2 * k) ?L \<and> on_path (2 * k + 1) ?L)"
        by (rule on_path_children_exclusive [OF k(1)])
      ultimately show ?thesis
        unfolding e using True sums [OF k] by auto
    next
      case False
      then have "\<not> on_path (2 * k) ?L" "\<not> on_path (2 * k + 1) ?L"
        using on_path_children [OF k(1) ne] by simp_all
      then show ?thesis
        unfolding e using False sums [OF k] by simp
    qed
  qed
  have zero': "nodes t' ! (bound t + k) = 0" if k: "capacity t \<le> k" "k < bound t" for k
  proof -
    have "k \<noteq> i" using k i by simp
    then have "leaf t' k = leaf t k" using lk k by simp
    then show ?thesis using zero [OF k] by (simp add: leaf_def same)
  qed
  have "sum_tree_invariant t'"
    unfolding sum_tree_invariant_def same
    using pow cap len sums' zero' by simp
  then show ?thesis
    using t' same li lk by blast
qed

lemma update_all_invariant:
  assumes "sum_tree_invariant t" and "\<forall>(i, p) \<in> set ups. i < capacity t"
  shows "\<exists>t'. update_all \<alpha> t ups = Inr t' \<and> sum_tree_invariant t'
           \<and> capacity t' = capacity t \<and> bound t' = bound t
           \<and> (\<forall>k. k < bound t \<and> k \<notin> fst ` set ups \<longrightarrow> leaf t' k = leaf t k)"
  using assms
proof (induction ups arbitrary: t)
  case Nil
  then show ?case by simp
next
  case (Cons u ups)
  obtain i p where u: "u = (i, p)" by (cases u)
  from Cons.prems(2) u have i: "i < capacity t" by simp
  from SumTree_update_invariant [OF Cons.prems(1) i, of \<alpha> p] obtain t1
    where t1: "SumTree_update \<alpha> t i p = Inr t1" "sum_tree_invariant t1"
      "capacity t1 = capacity t" "bound t1 = bound t"
      "\<And>k. k < bound t \<Longrightarrow> k \<noteq> i \<Longrightarrow> leaf t1 k = leaf t k"
    by blast
  have "\<forall>(i, p) \<in> set ups. i < capacity t1" using Cons.prems(2) t1(3) by simp
  from Cons.IH [OF t1(2) this] obtain t'
    where t': "update_all \<alpha> t1 ups = Inr t'" "sum_tree_invariant t'"
      "capacity t' = capacity t1" "bound t' = bound t1"
      "\<And>k. k < bound t1 \<Longrightarrow> k \<notin> fst ` set ups \<Longrightarrow> leaf t' k = leaf t1 k"
    by blast
  have "update_all \<alpha> t (u # ups) = Inr t'" using u t1(1) t'(1) by simp
  moreover have "leaf t' k = leaf t k" if "k < bound t" "k \<notin> fst ` set (u # ups)" for k
  proof -
    have "k \<noteq> i" "k \<notin> fst ` set ups" using that(2) u by auto
    then show ?thesis using t'(5) [of k] t1(5) [of k] t1(4) that(1) by simp
  qed
  ultimately show ?case using t'(2,3,4) t1(3,4) by auto
qed

subsection \<open>A node is the sum of the leaves below it\<close>

lemma level_sum:
  fixes vs :: "real list"
  assumes sums: "\<And>k. 0 < k \<Longrightarrow> k < bnd \<Longrightarrow> vs ! k = vs ! (2 * k) + vs ! (2 * k + 1)"
  shows "0 < i \<Longrightarrow> (i + 1) * 2 ^ m \<le> 2 * bnd \<Longrightarrow> vs ! i = (\<Sum>j = i * 2 ^ m..<(i + 1) * 2 ^ m. vs ! j)"
proof (induction m arbitrary: i)
  case 0
  then show ?case by simp
next
  case (Suc m)
  have "(i + 1) * 2 ^ m * 2 \<le> 2 * bnd" using Suc.prems(2) by (simp add: mult.assoc)
  then have le: "(i + 1) * 2 ^ m \<le> bnd" by simp
  have "(1::nat) \<le> 2 ^ m" by simp
  then have "(i + 1) * 1 \<le> (i + 1) * 2 ^ m" by (rule mult_le_mono2)
  then have "i + 1 \<le> (i + 1) * 2 ^ m" by simp
  then have i: "i < bnd" using le by linarith
  have l: "vs ! (2 * i) = (\<Sum>j = 2 * i * 2 ^ m..<(2 * i + 1) * 2 ^ m. vs ! j)"
  proof (rule Suc.IH)
    show "0 < 2 * i" using Suc.prems(1) by simp
    have "(2 * i + 1) * 2 ^ m \<le> (2 * i + 2) * 2 ^ m" by simp
    also have "\<dots> = 2 * ((i + 1) * 2 ^ m)" by simp
    finally show "(2 * i + 1) * 2 ^ m \<le> 2 * bnd" using le by linarith
  qed
  have r: "vs ! (2 * i + 1) = (\<Sum>j = (2 * i + 1) * 2 ^ m..<(2 * i + 1 + 1) * 2 ^ m. vs ! j)"
  proof (rule Suc.IH)
    show "0 < 2 * i + 1" by simp
    have "(2 * i + 1 + 1) * 2 ^ m = 2 * ((i + 1) * 2 ^ m)" by simp
    then show "(2 * i + 1 + 1) * 2 ^ m \<le> 2 * bnd" using le by linarith
  qed
  have b1: "2 * i * 2 ^ m = i * 2 ^ Suc m" by simp
  have b2: "(2 * i + 1 + 1) * 2 ^ m = (i + 1) * 2 ^ Suc m" by simp
  have o: "2 * i * 2 ^ m \<le> (2 * i + 1) * 2 ^ m" "(2 * i + 1) * 2 ^ m \<le> (2 * i + 1 + 1) * 2 ^ m"
    by simp_all
  have "vs ! i = vs ! (2 * i) + vs ! (2 * i + 1)" by (rule sums [OF Suc.prems(1) i])
  also have "\<dots> = (\<Sum>j = 2 * i * 2 ^ m..<(2 * i + 1 + 1) * 2 ^ m. vs ! j)"
    unfolding l r by (rule sum.atLeastLessThan_concat [OF o])
  finally show ?case unfolding b1 b2 .
qed

lemma total_is_leaf_sum:
  assumes inv: "sum_tree_invariant t"
  shows "SumTree_total t = (\<Sum>k < bound t. leaf t k)" and "SumTree_total t = (\<Sum>k < capacity t. leaf t k)"
proof -
  from inv obtain h where h: "bound t = 2 ^ h" by (auto simp: sum_tree_invariant_def)
  from inv have sums: "\<And>k. 0 < k \<Longrightarrow> k < bound t \<Longrightarrow>
        nodes t ! k = nodes t ! (2 * k) + nodes t ! (2 * k + 1)"
    and zero: "\<And>k. capacity t \<le> k \<Longrightarrow> k < bound t \<Longrightarrow> nodes t ! (bound t + k) = 0"
    and cap: "capacity t \<le> bound t"
    by (simp_all add: sum_tree_invariant_def)
  have "nodes t ! 1 = (\<Sum>j = 1 * 2 ^ h..<(1 + 1) * 2 ^ h. nodes t ! j)"
    by (rule level_sum [where bnd = "bound t"]) (use sums h in simp_all)
  also have "\<dots> = (\<Sum>j = 0 + bound t..<bound t + bound t. nodes t ! j)"
    using h by simp
  also have "\<dots> = (\<Sum>k = 0..<bound t. nodes t ! (k + bound t))"
    by (rule sum.shift_bounds_nat_ivl)
  also have "\<dots> = (\<Sum>k = 0..<bound t. nodes t ! (bound t + k))"
    by (simp add: add.commute)
  finally show all: "SumTree_total t = (\<Sum>k < bound t. leaf t k)"
    by (simp add: SumTree_total_def leaf_def lessThan_atLeast0)
  have "(\<Sum>k < bound t. leaf t k) = (\<Sum>k \<in> {..<capacity t} \<union> {capacity t..<bound t}. leaf t k)"
    using cap by (simp add: ivl_disj_un)
  also have "\<dots> = (\<Sum>k < capacity t. leaf t k) + (\<Sum>k = capacity t..<bound t. leaf t k)"
    by (rule sum.union_disjoint) auto
  also have "(\<Sum>k = capacity t..<bound t. leaf t k) = 0"
    by (rule sum.neutral) (simp add: leaf_def zero)
  finally show "SumTree_total t = (\<Sum>k < capacity t. leaf t k)" using all by simp
qed

subsection \<open>The descent\<close>

lemma descend_leaf: "bnd \<le> node \<Longrightarrow> descend bnd vs node target = node"
  by (subst descend.simps) simp

lemma descend_inner:
  "0 < node \<Longrightarrow> node < bnd \<Longrightarrow>
     descend bnd vs node target =
       (if target < vs ! (2 * node) then descend bnd vs (2 * node) target
        else descend bnd vs (2 * node + 1) (target - vs ! (2 * node)))"
  by (subst descend.simps) simp

lemma descend_interval:
  fixes vs :: "real list"
  assumes sums: "\<And>k. 0 < k \<Longrightarrow> k < bnd \<Longrightarrow> vs ! k = vs ! (2 * k) + vs ! (2 * k + 1)"
  shows "0 < i \<Longrightarrow> bnd \<le> i * 2 ^ m \<Longrightarrow> (i + 1) * 2 ^ m \<le> 2 * bnd \<Longrightarrow> 0 \<le> t \<Longrightarrow> t < vs ! i \<Longrightarrow>
     i * 2 ^ m \<le> descend bnd vs i t \<and> descend bnd vs i t < (i + 1) * 2 ^ m
     \<and> (\<Sum>j = i * 2 ^ m..<descend bnd vs i t. vs ! j) \<le> t
     \<and> t < (\<Sum>j = i * 2 ^ m..<Suc (descend bnd vs i t). vs ! j)"
proof (induction m arbitrary: i t)
  case 0
  then have "descend bnd vs i t = i" by (simp add: descend_leaf)
  then show ?case using 0 by simp
next
  case (Suc m)
  have "(i + 1) * 2 ^ m * 2 \<le> 2 * bnd" using Suc.prems(3) by (simp add: mult.assoc)
  then have le: "(i + 1) * 2 ^ m \<le> bnd" by simp
  have "(1::nat) \<le> 2 ^ m" by simp
  then have "(i + 1) * 1 \<le> (i + 1) * 2 ^ m" by (rule mult_le_mono2)
  then have i: "i < bnd" using le by simp
  have b1: "2 * i * 2 ^ m = i * 2 ^ Suc m" by simp
  have b2: "(2 * i + 1 + 1) * 2 ^ m = (i + 1) * 2 ^ Suc m" by simp
  have mid: "2 * i * 2 ^ m \<le> (2 * i + 1) * 2 ^ m" "(2 * i + 1) * 2 ^ m \<le> (2 * i + 1 + 1) * 2 ^ m"
    by simp_all
  have lo: "bnd \<le> 2 * i * 2 ^ m" using Suc.prems(2) by (simp only: b1)
  have hi: "(2 * i + 1 + 1) * 2 ^ m \<le> 2 * bnd" using Suc.prems(3) by (simp only: b2)
  have split: "vs ! i = vs ! (2 * i) + vs ! (2 * i + 1)" by (rule sums [OF Suc.prems(1) i])
  show ?case
  proof (cases "t < vs ! (2 * i)")
    case True
    let ?r = "descend bnd vs (2 * i) t"
    have d: "descend bnd vs i t = ?r"
      using True by (simp add: descend_inner [OF Suc.prems(1) i])
    have "2 * i * 2 ^ m \<le> ?r \<and> ?r < (2 * i + 1) * 2 ^ m
       \<and> (\<Sum>j = 2 * i * 2 ^ m..<?r. vs ! j) \<le> t
       \<and> t < (\<Sum>j = 2 * i * 2 ^ m..<Suc ?r. vs ! j)"
    proof (rule Suc.IH)
      show "0 < 2 * i" using Suc.prems(1) by simp
      show "bnd \<le> 2 * i * 2 ^ m" by (rule lo)
      show "(2 * i + 1) * 2 ^ m \<le> 2 * bnd" using mid(2) hi by linarith
      show "0 \<le> t" by (rule Suc.prems(4))
      show "t < vs ! (2 * i)" by (rule True)
    qed
    then have "i * 2 ^ Suc m \<le> ?r \<and> ?r < (i + 1) * 2 ^ Suc m
       \<and> (\<Sum>j = i * 2 ^ Suc m..<?r. vs ! j) \<le> t
       \<and> t < (\<Sum>j = i * 2 ^ Suc m..<Suc ?r. vs ! j)"
      using mid(2) unfolding b1 b2 [symmetric] by linarith
    then show ?thesis by (simp only: d)
  next
    case False
    let ?t = "t - vs ! (2 * i)"
    let ?r = "descend bnd vs (2 * i + 1) ?t"
    have d: "descend bnd vs i t = ?r"
      using False by (simp add: descend_inner [OF Suc.prems(1) i])
    have IH: "(2 * i + 1) * 2 ^ m \<le> ?r \<and> ?r < (2 * i + 1 + 1) * 2 ^ m
       \<and> (\<Sum>j = (2 * i + 1) * 2 ^ m..<?r. vs ! j) \<le> ?t
       \<and> ?t < (\<Sum>j = (2 * i + 1) * 2 ^ m..<Suc ?r. vs ! j)"
    proof (rule Suc.IH)
      show "0 < 2 * i + 1" by simp
      show "bnd \<le> (2 * i + 1) * 2 ^ m" using lo mid(1) by linarith
      show "(2 * i + 1 + 1) * 2 ^ m \<le> 2 * bnd" by (rule hi)
      show "0 \<le> ?t" using False by simp
      show "?t < vs ! (2 * i + 1)" using Suc.prems(5) split by simp
    qed
    have left: "vs ! (2 * i) = (\<Sum>j = 2 * i * 2 ^ m..<(2 * i + 1) * 2 ^ m. vs ! j)"
    proof (rule level_sum [where bnd = bnd])
      show "\<And>k. 0 < k \<Longrightarrow> k < bnd \<Longrightarrow> vs ! k = vs ! (2 * k) + vs ! (2 * k + 1)" by (rule sums)
      show "0 < 2 * i" using Suc.prems(1) by simp
      show "(2 * i + 1) * 2 ^ m \<le> 2 * bnd" using mid(2) hi by linarith
    qed
    have r1: "(2 * i + 1) * 2 ^ m \<le> ?r" and r2: "(2 * i + 1) * 2 ^ m \<le> Suc ?r"
      using IH by simp_all
    have "(\<Sum>j = 2 * i * 2 ^ m..<(2 * i + 1) * 2 ^ m. vs ! j)
            + (\<Sum>j = (2 * i + 1) * 2 ^ m..<?r. vs ! j)
        = (\<Sum>j = 2 * i * 2 ^ m..<?r. vs ! j)"
      by (rule sum.atLeastLessThan_concat [OF mid(1) r1])
    then have c1: "(\<Sum>j = 2 * i * 2 ^ m..<?r. vs ! j)
        = vs ! (2 * i) + (\<Sum>j = (2 * i + 1) * 2 ^ m..<?r. vs ! j)"
      by (simp only: left [symmetric])
    have "(\<Sum>j = 2 * i * 2 ^ m..<(2 * i + 1) * 2 ^ m. vs ! j)
            + (\<Sum>j = (2 * i + 1) * 2 ^ m..<Suc ?r. vs ! j)
        = (\<Sum>j = 2 * i * 2 ^ m..<Suc ?r. vs ! j)"
      by (rule sum.atLeastLessThan_concat [OF mid(1) r2])
    then have c2: "(\<Sum>j = 2 * i * 2 ^ m..<Suc ?r. vs ! j)
        = vs ! (2 * i) + (\<Sum>j = (2 * i + 1) * 2 ^ m..<Suc ?r. vs ! j)"
      by (simp only: left [symmetric])
    have "2 * i * 2 ^ m \<le> ?r \<and> ?r < (2 * i + 1 + 1) * 2 ^ m
       \<and> (\<Sum>j = 2 * i * 2 ^ m..<?r. vs ! j) \<le> t
       \<and> t < (\<Sum>j = 2 * i * 2 ^ m..<Suc ?r. vs ! j)"
      unfolding c1 c2 using IH mid(1) by linarith
    then show ?thesis unfolding d b1 b2 .
  qed
qed

lemma leaves_before:
  "(\<Sum>j = bound t..<bound t + k. nodes t ! j) = cumulative t k"
proof -
  have "(\<Sum>j = 0 + bound t..<k + bound t. nodes t ! j) = (\<Sum>j = 0..<k. nodes t ! (j + bound t))"
    by (rule sum.shift_bounds_nat_ivl)
  then show ?thesis
    by (simp add: cumulative_def leaf_def add.commute lessThan_atLeast0)
qed

lemma find_interval:
  assumes inv: "sum_tree_invariant t" and t0: "0 \<le> target" and t1: "target < SumTree_total t"
  shows "SumTree_find t target < capacity t"
    and "cumulative t (SumTree_find t target) \<le> target"
    and "target < cumulative t (Suc (SumTree_find t target))"
    and "0 < leaf t (SumTree_find t target)"
proof -
  from inv obtain h where h: "bound t = 2 ^ h" by (auto simp: sum_tree_invariant_def)
  from inv have sums: "\<And>k. 0 < k \<Longrightarrow> k < bound t \<Longrightarrow>
        nodes t ! k = nodes t ! (2 * k) + nodes t ! (2 * k + 1)"
    and zero: "\<And>k. capacity t \<le> k \<Longrightarrow> k < bound t \<Longrightarrow> nodes t ! (bound t + k) = 0"
    by (simp_all add: sum_tree_invariant_def)
  let ?r = "descend (bound t) (nodes t) 1 target"
  let ?k = "SumTree_find t target"
  have e: "1 * 2 ^ h = bound t" "(1 + 1) * 2 ^ h = 2 * bound t" using h by simp_all
  have "1 * 2 ^ h \<le> ?r \<and> ?r < (1 + 1) * 2 ^ h
     \<and> (\<Sum>j = 1 * 2 ^ h..<?r. nodes t ! j) \<le> target
     \<and> target < (\<Sum>j = 1 * 2 ^ h..<Suc ?r. nodes t ! j)"
  proof (rule descend_interval [where bnd = "bound t"])
    show "\<And>k. 0 < k \<Longrightarrow> k < bound t \<Longrightarrow>
        nodes t ! k = nodes t ! (2 * k) + nodes t ! (2 * k + 1)" by (rule sums)
    show "(0::nat) < 1" by simp
    show "bound t \<le> 1 * 2 ^ h" using h by simp
    show "(1 + 1) * 2 ^ h \<le> 2 * bound t" using h by simp
    show "0 \<le> target" by (rule t0)
    show "target < nodes t ! 1" using t1 by (simp add: SumTree_total_def)
  qed
  then have D: "bound t \<le> ?r \<and> ?r < 2 * bound t
     \<and> (\<Sum>j = bound t..<?r. nodes t ! j) \<le> target
     \<and> target < (\<Sum>j = bound t..<Suc ?r. nodes t ! j)"
    unfolding e .
  from D have r: "bound t \<le> ?r" "?r < 2 * bound t" by blast+
  from D have s1: "(\<Sum>j = bound t..<?r. nodes t ! j) \<le> target" by blast
  from D have s2: "target < (\<Sum>j = bound t..<Suc ?r. nodes t ! j)" by blast
  have rk: "?r = bound t + ?k" "Suc ?r = bound t + Suc ?k"
    using r(1) by (simp_all add: SumTree_find_def)
  show c1: "cumulative t ?k \<le> target"
    using s1 unfolding rk(1) leaves_before .
  show c2: "target < cumulative t (Suc ?k)"
    using s2 unfolding rk(2) leaves_before .
  have "cumulative t (Suc ?k) = cumulative t ?k + leaf t ?k"
    by (simp add: cumulative_def)
  then show pos: "0 < leaf t ?k" using c1 c2 by linarith
  have kb: "?k < bound t" using r(2) rk(1) by linarith
  show "?k < capacity t"
  proof (rule ccontr)
    assume "\<not> ?k < capacity t"
    then have "nodes t ! (bound t + ?k) = 0" using zero kb by simp
    then show False using pos by (simp add: leaf_def)
  qed
qed

lemma sample_target_segment:
  assumes pos: "0 < SumTree_total t" and i: "i < B" and u: "0 \<le> u" "u < 1"
  shows "SumTree_total t / real B * real i \<le> sample_target t B i u"
    and "sample_target t B i u < SumTree_total t / real B * real (i + 1)"
    and "0 \<le> sample_target t B i u"
    and "sample_target t B i u < SumTree_total t"
proof -
  let ?seg = "SumTree_total t / real B"
  have B: "0 < real B" using i by simp
  have seg: "0 < ?seg" using pos B by simp
  have tgt: "sample_target t B i u = ?seg * real i + u * ?seg"
    by (simp add: sample_target_def Let_def)
  have "0 \<le> ?seg" using seg by (rule less_imp_le)
  with u(1) have "0 \<le> u * ?seg" by (rule mult_nonneg_nonneg)
  then show lo: "?seg * real i \<le> sample_target t B i u" unfolding tgt by linarith
  have "u * ?seg < 1 * ?seg" using u(2) seg by (simp only: mult_less_cancel_right_pos)
  then have "?seg * real i + u * ?seg < ?seg * real i + ?seg" by simp
  also have "\<dots> = ?seg * real (i + 1)" by (simp add: distrib_left)
  finally show hi: "sample_target t B i u < ?seg * real (i + 1)" unfolding tgt .
  have "0 \<le> ?seg" "0 \<le> real i" using seg by simp_all
  then have "0 \<le> ?seg * real i" by (rule mult_nonneg_nonneg)
  then show "0 \<le> sample_target t B i u" using lo by linarith
  have "real (i + 1) \<le> real B" using i by simp
  then have "?seg * real (i + 1) \<le> ?seg * real B" using seg by (simp only: mult_le_cancel_left_pos)
  also have "\<dots> = SumTree_total t" using B by simp
  finally show "sample_target t B i u < SumTree_total t" using hi by linarith
qed

lemma SumTree_sample_nth:
  assumes "i < length us"
  shows "length (SumTree_sample t us) = length us"
    and "SumTree_sample t us ! i
          = (SumTree_find t (sample_target t (length us) i (us ! i)),
             leaf t (SumTree_find t (sample_target t (length us) i (us ! i))))"
  using assms by (simp_all add: SumTree_sample_def nth_enumerate_eq Let_def)

lemma reachable_invariant:
  assumes "update_all \<alpha> (SumTree_init n) ups = Inr t" and "\<forall>(i, p) \<in> set ups. i < n"
  shows "sum_tree_invariant t" and "capacity t = n"
    and "\<forall>k. k < bound t \<and> k \<notin> fst ` set ups \<longrightarrow> leaf t k = 0"
proof -
  have c: "capacity (SumTree_init n) = n" by (simp add: SumTree_init_def)
  have z: "leaf (SumTree_init n) k = 0" if "k < bound (SumTree_init n)" for k
    using that by (simp add: SumTree_init_def leaf_def)
  from update_all_invariant [OF SumTree_init_invariant, of ups n \<alpha>] assms c
  have *: "sum_tree_invariant t \<and> capacity t = n \<and> bound t = bound (SumTree_init n)
      \<and> (\<forall>k. k < bound (SumTree_init n) \<and> k \<notin> fst ` set ups \<longrightarrow> leaf t k = leaf (SumTree_init n) k)"
    by auto
  then show "sum_tree_invariant t" "capacity t = n" by simp_all
  from * z show "\<forall>k. k < bound t \<and> k \<notin> fst ` set ups \<longrightarrow> leaf t k = 0" by simp
qed

lemma update_all_in_range:
  "update_all \<alpha> t ups = Inr t' \<Longrightarrow> \<forall>(i, p) \<in> set ups. i < capacity t"
proof (induction ups arbitrary: t)
  case Nil
  then show ?case by simp
next
  case (Cons u ups)
  obtain i p where u: "u = (i, p)" by (cases u)
  from Cons.prems u obtain t1 where t1: "SumTree_update \<alpha> t i p = Inr t1"
    and rest: "update_all \<alpha> t1 ups = Inr t'"
    by (auto split: sum.splits)
  from t1 have i: "i < capacity t" and c: "capacity t1 = capacity t"
    by (auto simp: SumTree_update_def Let_def split: if_splits)
  from Cons.IH [OF rest] c have "\<forall>(i, p) \<in> set ups. i < capacity t" by simp
  then show ?case using i u by simp
qed

lemma reachable_tree:
  assumes "update_all \<alpha> (SumTree_init n) ups = Inr t"
  shows "sum_tree_invariant t" and "capacity t = n"
proof -
  have "\<forall>(i, p) \<in> set ups. i < n"
    using update_all_in_range [OF assms] by (simp add: SumTree_init_def)
  then show "sum_tree_invariant t" "capacity t = n"
    using reachable_invariant [OF assms] by simp_all
qed

subsection \<open>A tree of four slots\<close>

lemma example_tree:
  "update_all 1 (SumTree_init 4) [(0, 1), (2, 3), (0, 2)] = Inr \<lparr>capacity = 4, bound = 4, nodes = [0, 5, 2, 3, 2, 0, 3, 0]\<rparr>"
proof -
  have b: "tree_bound 1 4 = 4" by (simp add: tree_bound.simps)
  have i: "SumTree_init 4 = \<lparr>capacity = 4, bound = 4, nodes = [0, 0, 0, 0, 0, 0, 0, 0]\<rparr>"
    unfolding SumTree_init_def b by (simp add: eval_nat_numeral)
  show ?thesis
    unfolding i by (simp add: SumTree_update_def Let_def propagate.simps)
qed

subsection \<open>The tree after a sequence of updates\<close>

text \<open>
  Claim C3. Every sequence of updates at indices inside a tree of capacity \<open>n\<close> succeeds
  on the fresh tree, and in the tree it leaves every inner node, up to the root, is the sum
  of its two children; the total is the sum of all leaves of the array, and of the leaves of
  the \<open>n\<close> slots; the leaf of a slot that no update has written is zero; and a descent
  with a target in \<open>[0, total)\<close> ends in a written slot whose leaf is not zero, so a slot
  with a zero leaf is never sampled.
\<close>

theorem sum_tree_after_updates:
  assumes "\<forall>(i, p) \<in> set ups. i < n"
  shows "\<exists>t. update_all \<alpha> (SumTree_init n) ups = Inr t
       \<and> (\<forall>i. 0 < i \<and> i < bound t \<longrightarrow> nodes t ! i = nodes t ! (2 * i) + nodes t ! (2 * i + 1))
       \<and> SumTree_total t = (\<Sum>k < bound t. leaf t k)
       \<and> SumTree_total t = (\<Sum>k < n. leaf t k)
       \<and> (\<forall>k. k < bound t \<and> k \<notin> fst ` set ups \<longrightarrow> leaf t k = 0)
       \<and> (\<forall>target. 0 \<le> target \<and> target < SumTree_total t \<longrightarrow>
             SumTree_find t target < n \<and> leaf t (SumTree_find t target) \<noteq> 0
             \<and> SumTree_find t target \<in> fst ` set ups)"
proof -
  from update_all_invariant [OF SumTree_init_invariant, of ups n \<alpha>] assms
  obtain t where t: "update_all \<alpha> (SumTree_init n) ups = Inr t"
    by (auto simp: SumTree_init_def)
  note r = reachable_invariant [OF t assms]
  from r(1) have sums: "\<forall>i. 0 < i \<and> i < bound t \<longrightarrow>
      nodes t ! i = nodes t ! (2 * i) + nodes t ! (2 * i + 1)"
    and cap: "capacity t \<le> bound t"
    by (simp_all add: sum_tree_invariant_def)
  have tot: "SumTree_total t = (\<Sum>k < bound t. leaf t k)" "SumTree_total t = (\<Sum>k < n. leaf t k)"
    using total_is_leaf_sum [OF r(1)] r(2) by simp_all
  have never: "SumTree_find t target < n \<and> leaf t (SumTree_find t target) \<noteq> 0
             \<and> SumTree_find t target \<in> fst ` set ups"
    if "0 \<le> target" "target < SumTree_total t" for target
  proof -
    note f = find_interval [OF r(1) that]
    have "SumTree_find t target < bound t" using f(1) cap by simp
    then have "SumTree_find t target \<in> fst ` set ups" using r(3) f(4) by force
    then show ?thesis using f(1,4) r(2) by simp
  qed
  show ?thesis using t sums tot r(3) never by blast
qed

theorem sum_tree_after_updates_witness:
  "update_all 1 (SumTree_init 4) [(0, 1), (2, 3), (0, 2)] = Inr \<lparr>capacity = 4, bound = 4, nodes = [0, 5, 2, 3, 2, 0, 3, 0]\<rparr>
   \<and> nodes \<lparr>capacity = 4, bound = 4, nodes = [0, 5, 2, 3, 2, 0, 3, 0]\<rparr> ! 1 = nodes \<lparr>capacity = 4, bound = 4, nodes = [0, 5, 2, 3, 2, 0, 3, 0]\<rparr> ! (2 * 1) + nodes \<lparr>capacity = 4, bound = 4, nodes = [0, 5, 2, 3, 2, 0, 3, 0]\<rparr> ! (2 * 1 + 1)
   \<and> SumTree_total \<lparr>capacity = 4, bound = 4, nodes = [0, 5, 2, 3, 2, 0, 3, 0]\<rparr> = (\<Sum>k < 4. leaf \<lparr>capacity = 4, bound = 4, nodes = [0, 5, 2, 3, 2, 0, 3, 0]\<rparr> k)
   \<and> leaf \<lparr>capacity = 4, bound = 4, nodes = [0, 5, 2, 3, 2, 0, 3, 0]\<rparr> 1 = 0
   \<and> SumTree_find \<lparr>capacity = 4, bound = 4, nodes = [0, 5, 2, 3, 2, 0, 3, 0]\<rparr> (9 / 2) \<noteq> 1"
proof -
  have h: "\<forall>(i, p) \<in> set ([(0, 1), (2, 3), (0, 2)] :: (nat \<times> real) list). i < 4" by simp
  from sum_tree_after_updates [OF h, of 1] example_tree
  have sums: "\<forall>i. 0 < i \<and> i < bound \<lparr>capacity = 4, bound = 4, nodes = [0, 5, 2, 3, 2, 0, 3, 0]\<rparr> \<longrightarrow> nodes \<lparr>capacity = 4, bound = 4, nodes = [0, 5, 2, 3, 2, 0, 3, 0]\<rparr> ! i = nodes \<lparr>capacity = 4, bound = 4, nodes = [0, 5, 2, 3, 2, 0, 3, 0]\<rparr> ! (2 * i) + nodes \<lparr>capacity = 4, bound = 4, nodes = [0, 5, 2, 3, 2, 0, 3, 0]\<rparr> ! (2 * i + 1)"
    and tot: "SumTree_total \<lparr>capacity = 4, bound = 4, nodes = [0, 5, 2, 3, 2, 0, 3, 0]\<rparr> = (\<Sum>k < 4. leaf \<lparr>capacity = 4, bound = 4, nodes = [0, 5, 2, 3, 2, 0, 3, 0]\<rparr> k)"
    and unwritten: "\<forall>k. k < bound \<lparr>capacity = 4, bound = 4, nodes = [0, 5, 2, 3, 2, 0, 3, 0]\<rparr> \<and> k \<notin> fst ` set ([(0, 1), (2, 3), (0, 2)] :: (nat \<times> real) list) \<longrightarrow> leaf \<lparr>capacity = 4, bound = 4, nodes = [0, 5, 2, 3, 2, 0, 3, 0]\<rparr> k = 0"
    and never: "\<forall>target. 0 \<le> target \<and> target < SumTree_total \<lparr>capacity = 4, bound = 4, nodes = [0, 5, 2, 3, 2, 0, 3, 0]\<rparr> \<longrightarrow>
             SumTree_find \<lparr>capacity = 4, bound = 4, nodes = [0, 5, 2, 3, 2, 0, 3, 0]\<rparr> target < 4 \<and> leaf \<lparr>capacity = 4, bound = 4, nodes = [0, 5, 2, 3, 2, 0, 3, 0]\<rparr> (SumTree_find \<lparr>capacity = 4, bound = 4, nodes = [0, 5, 2, 3, 2, 0, 3, 0]\<rparr> target) \<noteq> 0
             \<and> SumTree_find \<lparr>capacity = 4, bound = 4, nodes = [0, 5, 2, 3, 2, 0, 3, 0]\<rparr> target \<in> fst ` set ([(0, 1), (2, 3), (0, 2)] :: (nat \<times> real) list)"
    by auto
  have "(0::nat) < 1 \<and> 1 < bound \<lparr>capacity = 4, bound = 4, nodes = [0, 5, 2, 3, 2, 0, 3, 0]\<rparr>" by simp
  with sums have a: "nodes \<lparr>capacity = 4, bound = 4, nodes = [0, 5, 2, 3, 2, 0, 3, 0]\<rparr> ! 1 = nodes \<lparr>capacity = 4, bound = 4, nodes = [0, 5, 2, 3, 2, 0, 3, 0]\<rparr> ! (2 * 1) + nodes \<lparr>capacity = 4, bound = 4, nodes = [0, 5, 2, 3, 2, 0, 3, 0]\<rparr> ! (2 * 1 + 1)" by blast
  have "1 < bound \<lparr>capacity = 4, bound = 4, nodes = [0, 5, 2, 3, 2, 0, 3, 0]\<rparr> \<and> 1 \<notin> fst ` set ([(0, 1), (2, 3), (0, 2)] :: (nat \<times> real) list)" by simp
  with unwritten have b: "leaf \<lparr>capacity = 4, bound = 4, nodes = [0, 5, 2, 3, 2, 0, 3, 0]\<rparr> 1 = 0" by blast
  have "(0::real) \<le> 9 / 2 \<and> 9 / 2 < SumTree_total \<lparr>capacity = 4, bound = 4, nodes = [0, 5, 2, 3, 2, 0, 3, 0]\<rparr>" by (simp add: SumTree_total_def)
  with never have "SumTree_find \<lparr>capacity = 4, bound = 4, nodes = [0, 5, 2, 3, 2, 0, 3, 0]\<rparr> (9 / 2) \<in> fst ` set ([(0, 1), (2, 3), (0, 2)] :: (nat \<times> real) list)" by blast
  then have c: "SumTree_find \<lparr>capacity = 4, bound = 4, nodes = [0, 5, 2, 3, 2, 0, 3, 0]\<rparr> (9 / 2) \<noteq> 1" by auto
  from example_tree a tot b c show ?thesis by (intro conjI)
qed


subsection \<open>Stratified sampling\<close>

text \<open>
  Claim C4. On a tree reached by updates whose total is positive, sampling with one draw
  of \<open>[0, 1)\<close> per segment returns as many pairs as there are draws. The target of draw
  \<open>i\<close> lies in segment \<open>i\<close> of the equal partition of \<open>[0, total)\<close>; the index returned
  for it is where the descent from the root ends, it is a slot of the tree, and the target
  lies in the interval of cumulative priority that belongs to this index, from the sum of
  the leaves in front of it up to that sum plus its own leaf. So the interval of the
  \<open>i\<close>-th index meets segment \<open>i\<close> in the point that was drawn.
\<close>

theorem stratified_sampling:
  assumes reach: "update_all \<alpha> (SumTree_init n) ups = Inr t"
    and pos: "0 < SumTree_total t"
    and draws: "\<forall>u \<in> set us. 0 \<le> u \<and> u < 1"
    and i: "i < length us"
  shows "length (SumTree_sample t us) = length us
       \<and> (let segment = SumTree_total t / real (length us);
               target = sample_target t (length us) i (us ! i);
               idx = fst (SumTree_sample t us ! i)
           in segment * real i \<le> target \<and> target < segment * real (i + 1)
              \<and> idx = SumTree_find t target
              \<and> snd (SumTree_sample t us ! i) = leaf t idx
              \<and> idx < n \<and> 0 < leaf t idx
              \<and> cumulative t idx \<le> target \<and> target < cumulative t idx + leaf t idx
              \<and> cumulative t idx < segment * real (i + 1)
              \<and> segment * real i < cumulative t idx + leaf t idx)"
proof -
  let ?target = "sample_target t (length us) i (us ! i)"
  let ?idx = "SumTree_find t ?target"
  note inv = reachable_tree [OF reach]
  have u: "0 \<le> us ! i" "us ! i < 1" using draws i by simp_all
  note seg = sample_target_segment [OF pos i u]
  note f = find_interval [OF inv(1) seg(3,4)]
  note s = SumTree_sample_nth [OF i, of t]
  have nxt: "cumulative t (Suc ?idx) = cumulative t ?idx + leaf t ?idx"
    by (simp add: cumulative_def)
  have "cumulative t ?idx < SumTree_total t / real (length us) * real (i + 1)"
    using f(2) seg(2) by linarith
  moreover have "SumTree_total t / real (length us) * real i < cumulative t ?idx + leaf t ?idx"
    using f(3) seg(1) nxt by linarith
  ultimately show ?thesis
    using s seg(1,2) f inv(2) nxt by (simp add: Let_def)
qed

theorem stratified_sampling_witness:
  "update_all 1 (SumTree_init 4) [(0, 1), (2, 3), (0, 2)] = Inr \<lparr>capacity = 4, bound = 4, nodes = [0, 5, 2, 3, 2, 0, 3, 0]\<rparr>
   \<and> 0 < SumTree_total \<lparr>capacity = 4, bound = 4, nodes = [0, 5, 2, 3, 2, 0, 3, 0]\<rparr>
   \<and> (1::nat) < length [1 / 2, 1 / 2 :: real]
   \<and> sample_target \<lparr>capacity = 4, bound = 4, nodes = [0, 5, 2, 3, 2, 0, 3, 0]\<rparr> (length [1 / 2, 1 / 2 :: real]) 1 ([1 / 2, 1 / 2] ! 1) = 15 / 4
   \<and> fst (SumTree_sample \<lparr>capacity = 4, bound = 4, nodes = [0, 5, 2, 3, 2, 0, 3, 0]\<rparr> [1 / 2, 1 / 2] ! 1) < 4
   \<and> cumulative \<lparr>capacity = 4, bound = 4, nodes = [0, 5, 2, 3, 2, 0, 3, 0]\<rparr> (fst (SumTree_sample \<lparr>capacity = 4, bound = 4, nodes = [0, 5, 2, 3, 2, 0, 3, 0]\<rparr> [1 / 2, 1 / 2] ! 1)) \<le> 15 / 4
   \<and> 15 / 4 < cumulative \<lparr>capacity = 4, bound = 4, nodes = [0, 5, 2, 3, 2, 0, 3, 0]\<rparr> (fst (SumTree_sample \<lparr>capacity = 4, bound = 4, nodes = [0, 5, 2, 3, 2, 0, 3, 0]\<rparr> [1 / 2, 1 / 2] ! 1))
               + leaf \<lparr>capacity = 4, bound = 4, nodes = [0, 5, 2, 3, 2, 0, 3, 0]\<rparr> (fst (SumTree_sample \<lparr>capacity = 4, bound = 4, nodes = [0, 5, 2, 3, 2, 0, 3, 0]\<rparr> [1 / 2, 1 / 2] ! 1))"
proof -
  have pos: "0 < SumTree_total \<lparr>capacity = 4, bound = 4, nodes = [0, 5, 2, 3, 2, 0, 3, 0]\<rparr>" by (simp add: SumTree_total_def)
  have draws: "\<forall>u \<in> set [1 / 2, 1 / 2 :: real]. 0 \<le> u \<and> u < 1" by simp
  have i: "(1::nat) < length [1 / 2, 1 / 2 :: real]" by simp
  have tg: "sample_target \<lparr>capacity = 4, bound = 4, nodes = [0, 5, 2, 3, 2, 0, 3, 0]\<rparr> (length [1 / 2, 1 / 2 :: real]) 1 ([1 / 2, 1 / 2] ! 1) = 15 / 4"
    by (simp add: sample_target_def SumTree_total_def)
  from stratified_sampling [OF example_tree pos draws i]
  have "fst (SumTree_sample \<lparr>capacity = 4, bound = 4, nodes = [0, 5, 2, 3, 2, 0, 3, 0]\<rparr> [1 / 2, 1 / 2] ! 1) < 4
   \<and> cumulative \<lparr>capacity = 4, bound = 4, nodes = [0, 5, 2, 3, 2, 0, 3, 0]\<rparr> (fst (SumTree_sample \<lparr>capacity = 4, bound = 4, nodes = [0, 5, 2, 3, 2, 0, 3, 0]\<rparr> [1 / 2, 1 / 2] ! 1)) \<le> 15 / 4
   \<and> 15 / 4 < cumulative \<lparr>capacity = 4, bound = 4, nodes = [0, 5, 2, 3, 2, 0, 3, 0]\<rparr> (fst (SumTree_sample \<lparr>capacity = 4, bound = 4, nodes = [0, 5, 2, 3, 2, 0, 3, 0]\<rparr> [1 / 2, 1 / 2] ! 1))
               + leaf \<lparr>capacity = 4, bound = 4, nodes = [0, 5, 2, 3, 2, 0, 3, 0]\<rparr> (fst (SumTree_sample \<lparr>capacity = 4, bound = 4, nodes = [0, 5, 2, 3, 2, 0, 3, 0]\<rparr> [1 / 2, 1 / 2] ! 1))"
    unfolding Let_def tg by blast
  with example_tree pos i tg show ?thesis by (intro conjI) blast+
qed

end
